theory Spec2Isabelle
  imports Main "HOL-Library.Sublist"
begin

section \<open>Python string operations used by the call processor\<close>

text \<open>
  Strings are \<open>char list\<close>. \<open>split_dot s\<close> is Python's \<^verbatim>\<open>s.split(".")\<close>: it never
  returns the empty list, and \<^verbatim>\<open>"".split(".")\<close> is \<^verbatim>\<open>[""]\<close>.
  \<open>join_dot ps\<close> is \<^verbatim>\<open>".".join(ps)\<close>.
\<close>

fun split_dot :: "string \<Rightarrow> string list" where
  "split_dot [] = [[]]"
| "split_dot (c # cs) =
     (if c = CHR ''.'' then [] # split_dot cs
      else (case split_dot cs of [] \<Rightarrow> [[c]] | p # ps \<Rightarrow> (c # p) # ps))"

fun join_dot :: "string list \<Rightarrow> string" where
  "join_dot [] = []"
| "join_dot [p] = p"
| "join_dot (p # q # ps) = p @ ''.'' @ join_dot (q # ps)"

text \<open>\<^verbatim>\<open>"." in s\<close>, \<^verbatim>\<open>"(" in s\<close>, \<^verbatim>\<open>")" in s\<close> and \<^verbatim>\<open>"::" in s\<close>.\<close>

definition has_dot :: "string \<Rightarrow> bool" where
  "has_dot s = (CHR ''.'' \<in> set s)"

definition has_parens :: "string \<Rightarrow> bool" where
  "has_parens s = (CHR ''('' \<in> set s \<and> CHR '')'' \<in> set s)"

fun has_double_colon :: "string \<Rightarrow> bool" where
  "has_double_colon (a # b # cs) =
     ((a = CHR '':'' \<and> b = CHR '':'') \<or> has_double_colon (b # cs))"
| "has_double_colon _ = False"

text \<open>\<^verbatim>\<open>s.split(".", 1)[1]\<close> for a string that contains a dot: what follows the first dot.\<close>

definition after_first_dot :: "string \<Rightarrow> string" where
  "after_first_dot s = drop 1 (dropWhile (\<lambda>c. c \<noteq> CHR ''.'') s)"

section \<open>The tables the resolver reads\<close>

text \<open>
  The Function Registry is used through \<^verbatim>\<open>qn in registry\<close>, \<^verbatim>\<open>registry[qn]\<close> (a map from
  qualified name to kind; indexing a missing key raises \<^verbatim>\<open>KeyError\<close>) and
  \<^verbatim>\<open>find_ending_with\<close>. The registry class, the import processor, the type inference
  engine and \<^verbatim>\<open>resolve_class_name\<close> are collaborators of \<^verbatim>\<open>CallProcessor\<close> that it receives
  from outside; they are parameters here. Dictionaries that the code iterates over
  (\<^verbatim>\<open>import_map.items()\<close>) or that have to be finite (\<^verbatim>\<open>class_inheritance\<close>) are association
  lists in insertion order, looked up with \<open>map_of\<close>.
\<close>

datatype error = KeyError

text \<open>
  A syntax-tree node as the code reads it: \<^verbatim>\<open>node.type\<close>, \<^verbatim>\<open>node.text\<close> (which may be
  \<^verbatim>\<open>None\<close>), \<^verbatim>\<open>node.children\<close>, and the field name under which the node hangs below its
  parent, so that \<^verbatim>\<open>child_by_field_name\<close> is the first child with that field name.
  \<^verbatim>\<open>node.parent\<close> is not stored: a function that climbs the tree takes the list of
  ancestors, nearest first.
\<close>

datatype node =
  Node (nfield: "string option") (ntype: string) (ntext: "string option") (nchildren: "node list")

definition child_by_field_name :: "node \<Rightarrow> string \<Rightarrow> node option" where
  "child_by_field_name n f = find (\<lambda>c. nfield c = Some f) (nchildren n)"

type_synonym import_map = "(string \<times> string) list"
type_synonym var_types = "(string \<times> string) list"
type_synonym inheritance = "(string \<times> string list) list"
type_synonym callee_info = "string \<times> string"

record env =
  function_registry :: "string \<rightharpoonup> string"
  find_ending_with :: "string \<Rightarrow> string list"
  import_mapping :: "string \<rightharpoonup> import_map"
  class_inheritance :: inheritance
  resolve_class_name :: "string \<Rightarrow> string \<Rightarrow> string option"
  infer_expression_return_type :: "string \<Rightarrow> string \<Rightarrow> var_types option \<Rightarrow> string option"
  build_local_variable_type_map :: "node \<Rightarrow> string \<Rightarrow> var_types"

text \<open>
  Modelled from the spec: the registry's suffix lookup, which the registry class (not
  part of the call processor) provides: all registered qualified names ending in
  \<^verbatim>\<open>.tail\<close>, in insertion order. Concrete scenarios instantiate \<open>find_ending_with\<close> with it.
\<close>

definition registry_find_ending_with :: "(string \<times> string) list \<Rightarrow> string \<Rightarrow> string list" where
  "registry_find_ending_with entries tail =
     filter (\<lambda>qn. suffix (''.'' @ tail) qn) (map fst entries)"

section \<open>Inheritance walk: \<^verbatim>\<open>_resolve_inherited_method\<close>\<close>

text \<open>
  The inner \<^verbatim>\<open>for grandparent_qn in ...\<close> loop: every parent of the class just visited
  that is not in \<open>visited\<close> is added to \<open>visited\<close> and appended to the queue.
\<close>

fun enqueue_unvisited :: "string list \<Rightarrow> string list \<Rightarrow> string set \<Rightarrow> string list \<times> string set" where
  "enqueue_unvisited [] queue visited = (queue, visited)"
| "enqueue_unvisited (g # gs) queue visited =
     (if g \<notin> visited then enqueue_unvisited gs (queue @ [g]) (insert g visited)
      else enqueue_unvisited gs queue visited)"

definition all_parents :: "inheritance \<Rightarrow> string set" where
  "all_parents table = set (concat (map snd table))"

text \<open>The \<^verbatim>\<open>while queue:\<close> loop, with \<^verbatim>\<open>queue.pop(0)\<close> as the head of the list.\<close>

function inherited_walk ::
  "(string \<rightharpoonup> string) \<Rightarrow> inheritance \<Rightarrow> string \<Rightarrow> string list \<Rightarrow> string set \<Rightarrow> callee_info option" where
  "inherited_walk reg table method_name [] visited = None"
| "inherited_walk reg table method_name (parent_class_qn # queue) visited =
     (let parent_method_qn = parent_class_qn @ ''.'' @ method_name in
      case reg parent_method_qn of
        Some kind \<Rightarrow> Some (kind, parent_method_qn)
      | None \<Rightarrow>
          (case map_of table parent_class_qn of
             None \<Rightarrow> inherited_walk reg table method_name queue visited
           | Some grandparents \<Rightarrow>
               inherited_walk reg table method_name
                 (fst (enqueue_unvisited grandparents queue visited))
                 (snd (enqueue_unvisited grandparents queue visited))))"
  by pat_completeness auto

lemma enqueue_unvisited_measure:
  "set gs \<subseteq> U \<Longrightarrow> finite U \<Longrightarrow>
   card (U - snd (enqueue_unvisited gs queue visited)) + length (fst (enqueue_unvisited gs queue visited))
     = card (U - visited) + length queue"
proof (induction gs arbitrary: queue visited)
  case Nil
  then show ?case by simp
next
  case (Cons g gs)
  show ?case
  proof (cases "g \<in> visited")
    case True
    with Cons show ?thesis by simp
  next
    case False
    from Cons.prems have gU: "g \<in> U" and fin: "finite U" by auto
    have "U - insert g visited = (U - visited) - {g}" by auto
    moreover have "g \<in> U - visited" using gU False by simp
    ultimately have "card (U - insert g visited) = card (U - visited) - 1"
      by simp
    moreover have "card (U - visited) > 0"
      using \<open>g \<in> U - visited\<close> fin by (metis card_gt_0_iff empty_iff finite_Diff)
    moreover have "card (U - snd (enqueue_unvisited gs (queue @ [g]) (insert g visited)))
        + length (fst (enqueue_unvisited gs (queue @ [g]) (insert g visited)))
        = card (U - insert g visited) + length (queue @ [g])"
      using Cons.IH [of "queue @ [g]" "insert g visited"] Cons.prems by simp
    ultimately show ?thesis using False by simp
  qed
qed

lemma map_of_all_parents: "map_of table c = Some ps \<Longrightarrow> set ps \<subseteq> all_parents table"
  by (auto simp: all_parents_def dest!: map_of_SomeD intro!: bexI [where x = "(c, ps)"])

termination inherited_walk
proof (relation "measure (\<lambda>(reg, table, m, queue, visited).
          card (all_parents table - visited) + length queue)")
  show "wf (measure (\<lambda>(reg, table, m, queue, visited).
          card (all_parents table - visited) + length queue))"
    by simp
next
  fix reg :: "string \<rightharpoonup> string" and table :: inheritance and method_name parent_class_qn :: string
    and queue :: "string list" and visited :: "string set" and x :: string
  show "((reg, table, method_name, queue, visited),
         (reg, table, method_name, parent_class_qn # queue, visited))
        \<in> measure (\<lambda>(reg, table, m, queue, visited).
             card (all_parents table - visited) + length queue)"
    by simp
next
  fix reg :: "string \<rightharpoonup> string" and table :: inheritance and method_name parent_class_qn :: string
    and queue :: "string list" and visited :: "string set" and x :: string
    and grandparents :: "string list"
  assume "map_of table parent_class_qn = Some grandparents"
  then have "set grandparents \<subseteq> all_parents table"
    by (rule map_of_all_parents)
  moreover have "finite (all_parents table)"
    by (simp add: all_parents_def)
  ultimately have
    "card (all_parents table - snd (enqueue_unvisited grandparents queue visited))
       + length (fst (enqueue_unvisited grandparents queue visited))
     = card (all_parents table - visited) + length queue"
    by (rule enqueue_unvisited_measure)
  then show "((reg, table, method_name, fst (enqueue_unvisited grandparents queue visited),
          snd (enqueue_unvisited grandparents queue visited)),
         (reg, table, method_name, parent_class_qn # queue, visited))
        \<in> measure (\<lambda>(reg, table, m, queue, visited).
             card (all_parents table - visited) + length queue)"
    by (simp add: case_prod_beta)
qed

definition resolve_inherited_method :: "env \<Rightarrow> string \<Rightarrow> string \<Rightarrow> callee_info option" where
  "resolve_inherited_method e class_qn method_name =
     (case map_of (class_inheritance e) class_qn of
        None \<Rightarrow> None
      | Some parents \<Rightarrow>
          inherited_walk (function_registry e) (class_inheritance e) method_name
            parents (set parents))"

section \<open>Super calls: \<^verbatim>\<open>_resolve_super_call\<close>\<close>

text \<open>\<^verbatim>\<open>if not current_class_qn\<close> rejects both \<^verbatim>\<open>None\<close> and the empty string.\<close>

definition resolve_super_call :: "env \<Rightarrow> string \<Rightarrow> string \<Rightarrow> string option \<Rightarrow> callee_info option" where
  "resolve_super_call e call_name module_qn class_context =
     (if has_dot call_name then
        (let method_name = after_first_dot call_name in
         case class_context of
           None \<Rightarrow> None
         | Some current_class_qn \<Rightarrow>
             if current_class_qn = [] then None
             else (case map_of (class_inheritance e) current_class_qn of
                     None \<Rightarrow> None
                   | Some parent_classes \<Rightarrow>
                       if parent_classes = [] then None
                       else resolve_inherited_method e current_class_qn method_name))
      else None)"

section \<open>Method chains: \<^verbatim>\<open>_is_method_chain\<close> and \<^verbatim>\<open>_resolve_chained_call\<close>\<close>

definition is_method_chain :: "string \<Rightarrow> bool" where
  "is_method_chain call_name =
     (if CHR ''('' \<in> set call_name \<and> CHR '')'' \<in> set call_name then
        (let parts = split_dot call_name;
             method_calls = length (filter has_parens parts)
         in method_calls \<ge> 1 \<and> length parts \<ge> 2)
      else False)"

text \<open>
  \<^verbatim>\<open>re.search(r"\.([^.()]+)$", call_name)\<close>: the text after the last dot, when the string
  has a dot and that text is not empty and has no parenthesis. The result is the pair
  (\<^verbatim>\<open>call_name[:match.start()]\<close>, \<^verbatim>\<open>match.group(1)\<close>).
\<close>

definition final_method_match :: "string \<Rightarrow> (string \<times> string) option" where
  "final_method_match call_name =
     (let parts = split_dot call_name; final_method = last parts in
      if length parts \<ge> 2 \<and> final_method \<noteq> []
         \<and> CHR ''('' \<notin> set final_method \<and> CHR '')'' \<notin> set final_method
      then Some (join_dot (butlast parts), final_method)
      else None)"

definition resolve_chained_call :: "env \<Rightarrow> string \<Rightarrow> string \<Rightarrow> var_types option \<Rightarrow> callee_info option" where
  "resolve_chained_call e call_name module_qn local_var_types =
     (case final_method_match call_name of
        None \<Rightarrow> None
      | Some (object_expr, final_method) \<Rightarrow>
          (case infer_expression_return_type e object_expr module_qn local_var_types of
             None \<Rightarrow> None
           | Some object_type \<Rightarrow>
               if object_type = [] then None
               else
                 (let full_object_type =
                        (if \<not> has_dot object_type then
                           (case resolve_class_name e object_type module_qn of
                              None \<Rightarrow> object_type
                            | Some resolved_class \<Rightarrow>
                                if resolved_class \<noteq> [] then resolved_class else object_type)
                         else object_type);
                      method_qn = full_object_type @ ''.'' @ final_method
                  in case function_registry e method_qn of
                       Some kind \<Rightarrow> Some (kind, method_qn)
                     | None \<Rightarrow> resolve_inherited_method e full_object_type final_method)))"

section \<open>Import distance: \<^verbatim>\<open>_calculate_import_distance\<close>\<close>

text \<open>The \<^verbatim>\<open>for i in range(min(...))\<close> loop that counts equal leading components and breaks
  at the first difference.\<close>

fun common_prefix :: "string list \<Rightarrow> string list \<Rightarrow> nat" where
  "common_prefix (a # as) (b # bs) = (if a = b then Suc (common_prefix as bs) else 0)"
| "common_prefix _ _ = 0"

definition calculate_import_distance :: "string \<Rightarrow> string \<Rightarrow> int" where
  "calculate_import_distance candidate_qn caller_module_qn =
     (let caller_parts = split_dot caller_module_qn;
          candidate_parts = split_dot candidate_qn;
          base_distance = int (max (length caller_parts) (length candidate_parts))
                          - int (common_prefix caller_parts candidate_parts)
      in if prefix (join_dot (butlast caller_parts) @ ''.'') candidate_qn
         then base_distance - 1 else base_distance)"

section \<open>The resolver: \<^verbatim>\<open>_resolve_function_call\<close>\<close>

text \<open>\<^verbatim>\<open>local_var_types and key in local_var_types\<close>, then \<^verbatim>\<open>local_var_types[key]\<close>.\<close>

definition lookup_var_type :: "var_types option \<Rightarrow> string \<Rightarrow> string option" where
  "lookup_var_type local_var_types key =
     (case local_var_types of None \<Rightarrow> None | Some types \<Rightarrow> map_of types key)"

text \<open>
  The block that both the self-attribute form and the class-name form run once the
  receiver's type is known: resolve \<open>var_type\<close> to a class QN (import map first, then
  \<^verbatim>\<open>_resolve_class_name\<close>, the empty string when neither knows it), then try the method on
  the class and on its ancestors.
\<close>

definition class_qn_of_type :: "env \<Rightarrow> import_map \<Rightarrow> string \<Rightarrow> string \<Rightarrow> string" where
  "class_qn_of_type e import_map module_qn var_type =
     (case map_of import_map var_type of
        Some imported \<Rightarrow> imported
      | None \<Rightarrow>
          (case resolve_class_name e var_type module_qn of
             None \<Rightarrow> []
           | Some class_qn_or_none \<Rightarrow> class_qn_or_none))"

definition resolve_on_type :: "env \<Rightarrow> import_map \<Rightarrow> string \<Rightarrow> string \<Rightarrow> string \<Rightarrow> callee_info option" where
  "resolve_on_type e import_map module_qn var_type method_name =
     (let class_qn = class_qn_of_type e import_map module_qn var_type
      in if class_qn \<noteq> [] then
           (let method_qn = class_qn @ ''.'' @ method_name in
            case function_registry e method_qn of
              Some kind \<Rightarrow> Some (kind, method_qn)
            | None \<Rightarrow> resolve_inherited_method e class_qn method_name)
         else None)"

text \<open>1a.1: direct import resolution.\<close>

definition resolve_direct_import :: "env \<Rightarrow> import_map \<Rightarrow> string \<Rightarrow> callee_info option" where
  "resolve_direct_import e import_map call_name =
     (case map_of import_map call_name of
        None \<Rightarrow> None
      | Some imported_qn \<Rightarrow>
          (case function_registry e imported_qn of
             Some kind \<Rightarrow> Some (kind, imported_qn)
           | None \<Rightarrow> None))"

text \<open>1a.2: qualified calls, \<^verbatim>\<open>self.attr.method\<close> and \<^verbatim>\<open>Class.method\<close>.\<close>

definition resolve_qualified ::
  "env \<Rightarrow> import_map \<Rightarrow> string \<Rightarrow> string \<Rightarrow> var_types option \<Rightarrow> callee_info option" where
  "resolve_qualified e import_map call_name module_qn local_var_types =
     (if has_dot call_name then
        (let parts = split_dot call_name in
         if length parts \<ge> 3 \<and> hd parts = ''self'' then
           (let attribute_ref = join_dot (butlast parts);
                method_name = last parts
            in case lookup_var_type local_var_types attribute_ref of
                 None \<Rightarrow> None
               | Some var_type \<Rightarrow> resolve_on_type e import_map module_qn var_type method_name)
         else
           (let class_name = hd parts;
                method_name = join_dot (tl parts)
            in case (case map_of import_map class_name of
                       None \<Rightarrow> None
                     | Some class_qn \<Rightarrow>
                         (let method_qn = class_qn @ ''.'' @ method_name in
                          case function_registry e method_qn of
                            Some kind \<Rightarrow> Some (kind, method_qn)
                          | None \<Rightarrow> None)) of
                 Some hit \<Rightarrow> Some hit
               | None \<Rightarrow>
                   (case lookup_var_type local_var_types class_name of
                      None \<Rightarrow> None
                    | Some var_type \<Rightarrow>
                        resolve_on_type e import_map module_qn var_type method_name)))
      else None)"

text \<open>1b: wildcard imports. \<open>wildcard_potential_qns\<close> is the list \<^verbatim>\<open>potential_qns\<close>.\<close>

definition wildcard_potential_qns :: "string \<Rightarrow> string \<Rightarrow> string list" where
  "wildcard_potential_qns imported_qn call_name =
     (if has_double_colon imported_qn then [imported_qn @ ''::'' @ call_name]
      else [imported_qn @ ''.'' @ call_name, imported_qn @ ''::'' @ call_name])"

fun first_registered :: "(string \<rightharpoonup> string) \<Rightarrow> string list \<Rightarrow> callee_info option" where
  "first_registered reg [] = None"
| "first_registered reg (wildcard_qn # rest) =
     (case reg wildcard_qn of
        Some kind \<Rightarrow> Some (kind, wildcard_qn)
      | None \<Rightarrow> first_registered reg rest)"

fun resolve_wildcard :: "(string \<rightharpoonup> string) \<Rightarrow> import_map \<Rightarrow> string \<Rightarrow> callee_info option" where
  "resolve_wildcard reg [] call_name = None"
| "resolve_wildcard reg ((local_name, imported_qn) # items) call_name =
     (if prefix ''*'' local_name then
        (case first_registered reg (wildcard_potential_qns imported_qn call_name) of
           Some hit \<Rightarrow> Some hit
         | None \<Rightarrow> resolve_wildcard reg items call_name)
      else resolve_wildcard reg items call_name)"

text \<open>Phase 1 as a whole; it runs only when the module has an import map.\<close>

definition resolve_import_phase ::
  "env \<Rightarrow> string \<Rightarrow> string \<Rightarrow> var_types option \<Rightarrow> callee_info option" where
  "resolve_import_phase e call_name module_qn local_var_types =
     (case import_mapping e module_qn of
        None \<Rightarrow> None
      | Some import_map \<Rightarrow>
          (case resolve_direct_import e import_map call_name of
             Some hit \<Rightarrow> Some hit
           | None \<Rightarrow>
               (case resolve_qualified e import_map call_name module_qn local_var_types of
                  Some hit \<Rightarrow> Some hit
                | None \<Rightarrow> resolve_wildcard (function_registry e) import_map call_name)))"

text \<open>
  Phase 2: same-module lookup, then the suffix fallback. \<^verbatim>\<open>list.sort(key=...)\<close> is
  stable, as \<open>sort_key\<close> is; \<^verbatim>\<open>self.function_registry[best_candidate_qn]\<close> is the one
  registry read that no membership test guards.
\<close>

definition resolve_heuristic :: "env \<Rightarrow> string \<Rightarrow> string \<Rightarrow> error + callee_info option" where
  "resolve_heuristic e call_name module_qn =
     (let same_module_func_qn = module_qn @ ''.'' @ call_name in
      case function_registry e same_module_func_qn of
        Some kind \<Rightarrow> Inr (Some (kind, same_module_func_qn))
      | None \<Rightarrow>
          (case sort_key (\<lambda>qn. calculate_import_distance qn module_qn)
                  (find_ending_with e call_name) of
             [] \<Rightarrow> Inr None
           | best_candidate_qn # _ \<Rightarrow>
               (case function_registry e best_candidate_qn of
                  None \<Rightarrow> Inl KeyError
                | Some kind \<Rightarrow> Inr (Some (kind, best_candidate_qn)))))"

definition resolve_function_call ::
  "env \<Rightarrow> string \<Rightarrow> string \<Rightarrow> var_types option \<Rightarrow> string option \<Rightarrow> error + callee_info option" where
  "resolve_function_call e call_name module_qn local_var_types class_context =
     (if prefix ''super()'' call_name then
        Inr (resolve_super_call e call_name module_qn class_context)
      else if has_dot call_name \<and> is_method_chain call_name then
        Inr (resolve_chained_call e call_name module_qn local_var_types)
      else
        (case resolve_import_phase e call_name module_qn local_var_types of
           Some hit \<Rightarrow> Inr (Some hit)
         | None \<Rightarrow> resolve_heuristic e call_name module_qn))"

section \<open>Call sites: \<^verbatim>\<open>_get_call_target_name\<close> and the nested-call descent\<close>

definition get_call_target_name :: "node \<Rightarrow> string option" where
  "get_call_target_name call_node =
     (case (case child_by_field_name call_node ''function'' of
              None \<Rightarrow> None
            | Some func_child \<Rightarrow>
                if ntype func_child = ''identifier'' then ntext func_child
                else if ntype func_child = ''attribute'' then ntext func_child
                else if ntype func_child = ''member_expression'' then ntext func_child
                else None) of
        Some text \<Rightarrow> Some text
      | None \<Rightarrow>
          (case child_by_field_name call_node ''name'' of
             None \<Rightarrow> None
           | Some name_node \<Rightarrow> ntext name_node))"

text \<open>
  The graph writer is a sink: what a procedure does to it is the list of edges it hands
  to \<^verbatim>\<open>ensure_relationship_batch\<close>, in order, and whether it ended by raising. An
  exception stops everything that would have followed; the edges already handed over
  stay.
\<close>

type_synonym edge = "(string \<times> string \<times> string) \<times> string \<times> (string \<times> string \<times> string)"
type_synonym outcome = "edge list \<times> error option"

definition then_do :: "outcome \<Rightarrow> outcome \<Rightarrow> outcome" where
  "then_do a b = (case snd a of Some err \<Rightarrow> a | None \<Rightarrow> (fst a @ fst b, snd b))"

record caller =
  cr_qn :: string
  cr_type :: string
  cr_module_qn :: string
  cr_var_types :: "var_types option"
  cr_class_context :: "string option"

text \<open>
  Resolve a call name and emit its edge: the code that follows
  \<^verbatim>\<open>_get_call_target_name\<close> in \<^verbatim>\<open>_ingest_function_calls\<close> and in
  \<^verbatim>\<open>_find_and_process_nested_calls\<close>. An empty call name and a resolution miss emit
  nothing.
\<close>

definition calls_edge :: "caller \<Rightarrow> callee_info \<Rightarrow> edge" where
  "calls_edge c callee_info =
     ((cr_type c, ''qualified_name'', cr_qn c), ''CALLS'',
      (fst callee_info, ''qualified_name'', snd callee_info))"

definition resolve_and_emit :: "env \<Rightarrow> caller \<Rightarrow> node \<Rightarrow> outcome" where
  "resolve_and_emit e c call_node =
     (case get_call_target_name call_node of
        None \<Rightarrow> ([], None)
      | Some call_name \<Rightarrow>
          if call_name = [] then ([], None)
          else
            (case resolve_function_call e call_name (cr_module_qn c) (cr_var_types c)
                    (cr_class_context c) of
               Inl err \<Rightarrow> ([], Some err)
             | Inr None \<Rightarrow> ([], None)
             | Inr (Some callee_info) \<Rightarrow> ([calls_edge c callee_info], None)))"

lemma child_by_field_name_size:
  "child_by_field_name n f = Some c \<Longrightarrow> size c < size n"
proof -
  assume "child_by_field_name n f = Some c"
  then have "c \<in> set (nchildren n)"
    by (auto simp: child_by_field_name_def find_Some_iff)
  then have "size c \<le> size_list size (nchildren n)"
    by (simp add: size_list_estimation')
  then show ?thesis by (cases n) simp
qed

function process_nested_calls_in_node :: "env \<Rightarrow> caller \<Rightarrow> node \<Rightarrow> outcome"
  and find_and_process_nested_calls :: "env \<Rightarrow> caller \<Rightarrow> node \<Rightarrow> outcome"
  and find_and_process_children :: "env \<Rightarrow> caller \<Rightarrow> node list \<Rightarrow> outcome" where
  "process_nested_calls_in_node e c call_node =
     (case child_by_field_name call_node ''function'' of
        None \<Rightarrow> ([], None)
      | Some func_child \<Rightarrow>
          if ntype func_child = ''attribute''
          then find_and_process_nested_calls e c func_child
          else ([], None))"
| "find_and_process_nested_calls e c n =
     then_do
       (if ntype n = ''call''
        then then_do (process_nested_calls_in_node e c n) (resolve_and_emit e c n)
        else ([], None))
       (find_and_process_children e c (nchildren n))"
| "find_and_process_children e c [] = ([], None)"
| "find_and_process_children e c (child # rest) =
     then_do (find_and_process_nested_calls e c child) (find_and_process_children e c rest)"
  by pat_completeness auto
termination
proof (relation "measure (\<lambda>x. case x of
          Inl (e, c, n) \<Rightarrow> 2 * size n
        | Inr (Inl (e, c, n)) \<Rightarrow> 2 * size n + 1
        | Inr (Inr (e, c, ns)) \<Rightarrow> 2 * size_list size ns + 1)")
  show "wf (measure (\<lambda>x. case x of
          Inl (e, c, n) \<Rightarrow> 2 * size n
        | Inr (Inl (e, c, n)) \<Rightarrow> 2 * size n + 1
        | Inr (Inr (e, c, ns)) \<Rightarrow> 2 * size_list size ns + 1))"
    by simp
next
  fix e :: env and c :: caller and call_node func_child :: node
  assume "child_by_field_name call_node ''function'' = Some func_child"
  then have "size func_child < size call_node"
    by (rule child_by_field_name_size)
  then show "(Inr (Inl (e, c, func_child)), Inl (e, c, call_node))
      \<in> measure (\<lambda>x. case x of
          Inl (e, c, n) \<Rightarrow> 2 * size n
        | Inr (Inl (e, c, n)) \<Rightarrow> 2 * size n + 1
        | Inr (Inr (e, c, ns)) \<Rightarrow> 2 * size_list size ns + 1)"
    by simp
next
  fix e :: env and c :: caller and n :: node
  show "(Inl (e, c, n), Inr (Inl (e, c, n)))
      \<in> measure (\<lambda>x. case x of
          Inl (e, c, n) \<Rightarrow> 2 * size n
        | Inr (Inl (e, c, n)) \<Rightarrow> 2 * size n + 1
        | Inr (Inr (e, c, ns)) \<Rightarrow> 2 * size_list size ns + 1)"
    by simp
next
  fix e :: env and c :: caller and n :: node
  show "(Inr (Inr (e, c, nchildren n)), Inr (Inl (e, c, n)))
      \<in> measure (\<lambda>x. case x of
          Inl (e, c, n) \<Rightarrow> 2 * size n
        | Inr (Inl (e, c, n)) \<Rightarrow> 2 * size n + 1
        | Inr (Inr (e, c, ns)) \<Rightarrow> 2 * size_list size ns + 1)"
    by (cases n) simp
next
  fix e :: env and c :: caller and child :: node and rest :: "node list"
  show "(Inr (Inl (e, c, child)), Inr (Inr (e, c, child # rest)))
      \<in> measure (\<lambda>x. case x of
          Inl (e, c, n) \<Rightarrow> 2 * size n
        | Inr (Inl (e, c, n)) \<Rightarrow> 2 * size n + 1
        | Inr (Inr (e, c, ns)) \<Rightarrow> 2 * size_list size ns + 1)"
    by simp
next
  fix e :: env and c :: caller and child :: node and rest :: "node list"
  show "(Inr (Inr (e, c, rest)), Inr (Inr (e, c, child # rest)))
      \<in> measure (\<lambda>x. case x of
          Inl (e, c, n) \<Rightarrow> 2 * size n
        | Inr (Inl (e, c, n)) \<Rightarrow> 2 * size n + 1
        | Inr (Inr (e, c, ns)) \<Rightarrow> 2 * size_list size ns + 1)"
    by simp
qed

section \<open>Captures and \<^verbatim>\<open>_ingest_function_calls\<close>\<close>

text \<open>
  Modelled from the spec: the grammar and query layer, which is outside the call
  processor. A query yields a capture group; here a query is the list of node types it
  captures, and \<^verbatim>\<open>cursor.captures(n)\<close> holds every node of the subtree of \<open>n\<close> (\<open>n\<close>
  included) that has one of these types, in document order. Function captures come with
  their ancestors inside the tree that was queried, nearest first, which stand for
  \<^verbatim>\<open>node.parent\<close>.
\<close>

record lang_config =
  module_node_types :: "string list"
  class_node_types :: "string list"
  function_node_types :: "string list"

record lang_queries =
  config :: lang_config
  functions_query :: "string list"
  classes_query :: "string list"
  calls_query :: "string list option"

fun subtree_with_ancestors :: "node list \<Rightarrow> node \<Rightarrow> (node \<times> node list) list" where
  "subtree_with_ancestors up (Node f t x cs) =
     (Node f t x cs, up) # concat (map (subtree_with_ancestors (Node f t x cs # up)) cs)"

definition subtree :: "node \<Rightarrow> node list" where
  "subtree n = map fst (subtree_with_ancestors [] n)"

definition captures :: "string list \<Rightarrow> node \<Rightarrow> node list" where
  "captures query n = filter (\<lambda>m. ntype m \<in> set query) (subtree n)"

definition captures_with_ancestors :: "string list \<Rightarrow> node list \<Rightarrow> node \<Rightarrow> (node \<times> node list) list" where
  "captures_with_ancestors query up n =
     filter (\<lambda>(m, _). ntype m \<in> set query) (subtree_with_ancestors up n)"

text \<open>One round of the \<^verbatim>\<open>for call_node in call_nodes\<close> loop, and the loop.\<close>

definition ingest_call_node :: "env \<Rightarrow> caller \<Rightarrow> node \<Rightarrow> outcome" where
  "ingest_call_node e c call_node =
     then_do (process_nested_calls_in_node e c call_node) (resolve_and_emit e c call_node)"

fun ingest_call_nodes :: "env \<Rightarrow> caller \<Rightarrow> node list \<Rightarrow> outcome" where
  "ingest_call_nodes e c [] = ([], None)"
| "ingest_call_nodes e c (call_node # rest) =
     then_do (ingest_call_node e c call_node) (ingest_call_nodes e c rest)"

definition ingest_function_calls ::
  "env \<Rightarrow> lang_queries \<Rightarrow> node \<Rightarrow> string \<Rightarrow> string \<Rightarrow> string \<Rightarrow> string option \<Rightarrow> outcome" where
  "ingest_function_calls e queries caller_node qn kind module_qn class_context =
     (case calls_query queries of
        None \<Rightarrow> ([], None)
      | Some calls \<Rightarrow>
          ingest_call_nodes e
            \<lparr> cr_qn = qn, cr_type = kind, cr_module_qn = module_qn,
              cr_var_types = Some (build_local_variable_type_map e caller_node module_qn),
              cr_class_context = class_context \<rparr>
            (captures calls caller_node))"

section \<open>Callers: \<^verbatim>\<open>_build_nested_qualified_name\<close>, \<^verbatim>\<open>_is_method\<close> and the two passes over a file\<close>

text \<open>\<^verbatim>\<open>name_node.text.decode("utf8")\<close> of the \<^verbatim>\<open>name\<close> field, when both exist.\<close>

definition name_of :: "node \<Rightarrow> string option" where
  "name_of n =
     (case child_by_field_name n ''name'' of
        None \<Rightarrow> None
      | Some name_node \<Rightarrow> ntext name_node)"

text \<open>
  The \<^verbatim>\<open>while current and current.type not in module_node_types\<close> loop of
  \<^verbatim>\<open>_build_nested_qualified_name\<close>; \<open>None\<close> is its \<^verbatim>\<open>return None  # This is a method\<close>.
\<close>

fun collect_path_parts :: "lang_config \<Rightarrow> node list \<Rightarrow> string list \<Rightarrow> string list option" where
  "collect_path_parts cfg [] path_parts = Some path_parts"
| "collect_path_parts cfg (current # up) path_parts =
     (if ntype current \<in> set (module_node_types cfg) then Some path_parts
      else if ntype current \<in> set (function_node_types cfg) then
        collect_path_parts cfg up
          (case name_of current of
             None \<Rightarrow> path_parts
           | Some text \<Rightarrow> path_parts @ [text])
      else if ntype current \<in> set (class_node_types cfg) then None
      else collect_path_parts cfg up path_parts)"

definition build_nested_qualified_name ::
  "lang_config \<Rightarrow> node list \<Rightarrow> string \<Rightarrow> string \<Rightarrow> string option" where
  "build_nested_qualified_name cfg ancestors module_qn func_name =
     (if ancestors = [] then None
      else
        (case collect_path_parts cfg ancestors [] of
           None \<Rightarrow> None
         | Some path_parts \<Rightarrow>
             if rev path_parts \<noteq> []
             then Some (module_qn @ ''.'' @ join_dot (rev path_parts) @ ''.'' @ func_name)
             else Some (module_qn @ ''.'' @ func_name)))"

fun is_method :: "lang_config \<Rightarrow> node list \<Rightarrow> bool" where
  "is_method cfg [] = False"
| "is_method cfg (current # up) =
     (if ntype current \<in> set (module_node_types cfg) then False
      else if ntype current \<in> set (class_node_types cfg) then True
      else is_method cfg up)"

text \<open>
  \<^verbatim>\<open>_process_calls_in_functions\<close>: the caller's qualified name, or \<open>None\<close> where the loop
  body reaches a \<^verbatim>\<open>continue\<close> or \<^verbatim>\<open>func_qn\<close> is empty, and the loop over the captures.
\<close>

definition function_caller_qn :: "lang_config \<Rightarrow> string \<Rightarrow> node \<times> node list \<Rightarrow> string option" where
  "function_caller_qn cfg module_qn capture =
     (case capture of (func_node, ancestors) \<Rightarrow>
        if is_method cfg ancestors then None
        else
          (case name_of func_node of
             None \<Rightarrow> None
           | Some func_name \<Rightarrow>
               (case build_nested_qualified_name cfg ancestors module_qn func_name of
                  None \<Rightarrow> None
                | Some func_qn \<Rightarrow> if func_qn \<noteq> [] then Some func_qn else None)))"

fun ingest_functions ::
  "env \<Rightarrow> lang_queries \<Rightarrow> string \<Rightarrow> (node \<times> node list) list \<Rightarrow> outcome" where
  "ingest_functions e queries module_qn [] = ([], None)"
| "ingest_functions e queries module_qn (capture # rest) =
     then_do
       (case function_caller_qn (config queries) module_qn capture of
          None \<Rightarrow> ([], None)
        | Some func_qn \<Rightarrow>
            ingest_function_calls e queries (fst capture) func_qn ''Function'' module_qn None)
       (ingest_functions e queries module_qn rest)"

definition process_calls_in_functions :: "env \<Rightarrow> lang_queries \<Rightarrow> node \<Rightarrow> string \<Rightarrow> outcome" where
  "process_calls_in_functions e queries root_node module_qn =
     ingest_functions e queries module_qn
       (captures_with_ancestors (functions_query queries) [] root_node)"

text \<open>
  \<^verbatim>\<open>_process_calls_in_classes\<close>: for every captured class with a name and a body, every
  function captured inside the body that has a name is ingested as a method of that
  class.
\<close>

fun ingest_methods ::
  "env \<Rightarrow> lang_queries \<Rightarrow> string \<Rightarrow> string \<Rightarrow> node list \<Rightarrow> outcome" where
  "ingest_methods e queries module_qn class_qn [] = ([], None)"
| "ingest_methods e queries module_qn class_qn (method_node # rest) =
     then_do
       (case name_of method_node of
          None \<Rightarrow> ([], None)
        | Some method_name \<Rightarrow>
            ingest_function_calls e queries method_node (class_qn @ ''.'' @ method_name)
              ''Method'' module_qn (Some class_qn))
       (ingest_methods e queries module_qn class_qn rest)"

fun ingest_classes ::
  "env \<Rightarrow> lang_queries \<Rightarrow> string \<Rightarrow> node list \<Rightarrow> outcome" where
  "ingest_classes e queries module_qn [] = ([], None)"
| "ingest_classes e queries module_qn (class_node # rest) =
     then_do
       (case name_of class_node of
          None \<Rightarrow> ([], None)
        | Some class_name \<Rightarrow>
            (case child_by_field_name class_node ''body'' of
               None \<Rightarrow> ([], None)
             | Some body_node \<Rightarrow>
                 ingest_methods e queries module_qn (module_qn @ ''.'' @ class_name)
                   (captures (functions_query queries) body_node)))
       (ingest_classes e queries module_qn rest)"

definition process_calls_in_classes :: "env \<Rightarrow> lang_queries \<Rightarrow> node \<Rightarrow> string \<Rightarrow> outcome" where
  "process_calls_in_classes e queries root_node module_qn =
     ingest_classes e queries module_qn (captures (classes_query queries) root_node)"

text \<open>
  \<^verbatim>\<open>process_calls_in_file\<close> from the point where the module's qualified name is known:
  the two passes in order; the \<^verbatim>\<open>except\<close> clause only logs.
\<close>

definition process_calls_in_file :: "env \<Rightarrow> lang_queries \<Rightarrow> node \<Rightarrow> string \<Rightarrow> edge list" where
  "process_calls_in_file e queries root_node module_qn =
     fst (then_do (process_calls_in_functions e queries root_node module_qn)
                  (process_calls_in_classes e queries root_node module_qn))"

text \<open>
  The package that holds a module: \<^verbatim>\<open>".".join(caller_parts[:-1])\<close>.
\<close>

definition parent_package :: "string \<Rightarrow> string" where
  "parent_package caller_module_qn = join_dot (butlast (split_dot caller_module_qn))"

text \<open>
  The distance as the specification words it, for comparison with the code: the base
  distance, less one exactly when the candidate is a direct child of the caller's parent
  package, that is, when it has the components of that package and one more.
\<close>

definition spec_import_distance :: "string \<Rightarrow> string \<Rightarrow> int" where
  "spec_import_distance candidate_qn caller_module_qn =
     (let A = split_dot caller_module_qn;
          B = split_dot candidate_qn;
          p = length (longest_common_prefix A B);
          direct_child = (butlast B = butlast A)
      in int (max (length A) (length B)) - int p - (if direct_child then 1 else 0))"

section \<open>The inheritance walk as the specification words it\<close>

text \<open>
  The declared parents of a class (none for a class without an entry), the parent
  relation of a table, and the ancestors of a class: what the parent relation reaches in
  one step or more.
\<close>

definition declared_parents :: "inheritance \<Rightarrow> string \<Rightarrow> string list" where
  "declared_parents table class_qn =
     (case map_of table class_qn of None \<Rightarrow> [] | Some parents \<Rightarrow> parents)"

definition parent_rel :: "inheritance \<Rightarrow> (string \<times> string) set" where
  "parent_rel table = {(c, p). p \<in> set (declared_parents table c)}"

definition ancestors :: "inheritance \<Rightarrow> string \<Rightarrow> string set" where
  "ancestors table class_qn = {p. (class_qn, p) \<in> (parent_rel table)\<^sup>+}"

text \<open>
  Breadth-first order, level by level: the next level holds, in the order of the classes
  of this level and for each class in the declared order of its parents, the parents not
  visited before. \<open>bfs_levels\<close> lists a level, then the levels after it.
\<close>

fun next_level :: "inheritance \<Rightarrow> string list \<Rightarrow> string set \<Rightarrow> string list \<times> string set" where
  "next_level table [] visited = ([], visited)"
| "next_level table (c # cs) visited =
     (let found = enqueue_unvisited (declared_parents table c) [] visited;
          later = next_level table cs (snd found)
      in (fst found @ fst later, snd later))"

lemma enqueue_unvisited_sets:
  "snd (enqueue_unvisited gs queue visited) = visited \<union> set gs"
  "set (fst (enqueue_unvisited gs queue visited)) = set queue \<union> (set gs - visited)"
  by (induction gs arbitrary: queue visited) auto

lemma next_level_sets:
  "snd (next_level table cs visited) = visited \<union> (\<Union>c\<in>set cs. set (declared_parents table c))"
  "set (fst (next_level table cs visited)) = (\<Union>c\<in>set cs. set (declared_parents table c)) - visited"
  by (induction cs arbitrary: visited) (auto simp: Let_def enqueue_unvisited_sets)

lemma declared_parents_all_parents: "set (declared_parents table c) \<subseteq> all_parents table"
proof (cases "map_of table c")
  case None
  then show ?thesis by (simp add: declared_parents_def)
next
  case (Some ps)
  then show ?thesis using map_of_all_parents [OF Some] by (simp add: declared_parents_def)
qed

function bfs_levels :: "inheritance \<Rightarrow> string list \<Rightarrow> string set \<Rightarrow> string list" where
  "bfs_levels table [] visited = []"
| "bfs_levels table (c # cs) visited =
     (c # cs) @ bfs_levels table (fst (next_level table (c # cs) visited))
                                 (snd (next_level table (c # cs) visited))"
  by pat_completeness auto
termination
proof (relation "measures [\<lambda>(table, level, visited). card (all_parents table - visited),
                           \<lambda>(table, level, visited). length level]")
  show "wf (measures [\<lambda>(table, level, visited). card (all_parents table - visited),
                      \<lambda>(table, level, visited). length level])"
    by simp
next
  fix table :: inheritance and c :: string and cs :: "string list" and visited :: "string set"
  let ?new = "fst (next_level table (c # cs) visited)"
  let ?vis = "snd (next_level table (c # cs) visited)"
  let ?P = "\<Union>c\<in>set (c # cs). set (declared_parents table c)"
  have vis: "?vis = visited \<union> ?P"
    by (rule next_level_sets)
  have new: "set ?new = ?P - visited"
    by (rule next_level_sets)
  have fin: "finite (all_parents table)" by (simp add: all_parents_def)
  show "((table, ?new, ?vis), (table, c # cs, visited))
      \<in> measures [\<lambda>(table, level, visited). card (all_parents table - visited),
                   \<lambda>(table, level, visited). length level]"
  proof (cases "?new = []")
    case True
    then have "?P \<subseteq> visited"
      using new by (metis Diff_eq_empty_iff set_empty)
    then have "?vis = visited" using vis by auto
    with True show ?thesis by (simp add: case_prod_beta del: next_level.simps)
  next
    case False
    from False obtain g where g: "g \<in> set ?new" by (cases ?new) auto
    have P: "?P \<subseteq> all_parents table"
      using declared_parents_all_parents by blast
    have g1: "g \<notin> visited" and g2: "g \<in> ?P"
      using g unfolding new by blast+
    have "g \<in> all_parents table - visited" "g \<notin> all_parents table - (visited \<union> ?P)"
      using g1 g2 P by blast+
    then have "all_parents table - (visited \<union> ?P) \<subset> all_parents table - visited"
      by blast
    then have "all_parents table - ?vis \<subset> all_parents table - visited"
      unfolding vis .
    then have "card (all_parents table - ?vis) < card (all_parents table - visited)"
      using fin by (intro psubset_card_mono) auto
    then show ?thesis by (simp add: case_prod_beta del: next_level.simps)
  qed
qed

section \<open>The invariant of emitted edges\<close>

text \<open>
  An edge is a \<^verbatim>\<open>CALLS\<close> edge between two nodes keyed by \<^verbatim>\<open>qualified_name\<close> whose
  destination is a key of the Function Registry, labelled with the registered kind.
\<close>

definition callee_registered :: "env \<Rightarrow> edge \<Rightarrow> bool" where
  "callee_registered e edge =
     (\<exists>caller_type caller_qn kind callee_qn.
        edge = ((caller_type, ''qualified_name'', caller_qn), ''CALLS'',
                (kind, ''qualified_name'', callee_qn))
        \<and> function_registry e callee_qn = Some kind)"

section \<open>Scenarios\<close>

text \<open>
  A registry in which the same-module lookup would find a function named like a
  super call and one named like a method chain.
\<close>

definition env_terminal :: env where
  "env_terminal =
     \<lparr> function_registry =
         map_of [(''M.super().start'', ''Function''), (''M.a.b().c'', ''Function'')],
       find_ending_with =
         registry_find_ending_with
           [(''M.super().start'', ''Function''), (''M.a.b().c'', ''Function'')],
       import_mapping = Map.empty,
       class_inheritance = [],
       resolve_class_name = (\<lambda>_ _. None),
       infer_expression_return_type = (\<lambda>_ _ _. None),
       build_local_variable_type_map = (\<lambda>_ _. []) \<rparr>"

text \<open>
  A class \<^verbatim>\<open>p.D\<close> with parents \<^verbatim>\<open>p.B\<close> and \<^verbatim>\<open>p.C\<close>, in this order; \<^verbatim>\<open>p.B\<close> has the parent \<^verbatim>\<open>p.A\<close>,
  and \<^verbatim>\<open>p.C\<close> the parents \<^verbatim>\<open>p.A\<close> and \<^verbatim>\<open>p.D\<close>, which closes a cycle. \<^verbatim>\<open>run\<close> is a method of
  \<^verbatim>\<open>p.A\<close> and of \<^verbatim>\<open>p.C\<close>; no class has a method \<^verbatim>\<open>stop\<close>.
\<close>

definition registry_diamond :: "(string \<times> string) list" where
  "registry_diamond = [(''p.A.run'', ''Method''), (''p.C.run'', ''Method'')]"

definition env_diamond :: env where
  "env_diamond =
     \<lparr> function_registry = map_of registry_diamond,
       find_ending_with = registry_find_ending_with registry_diamond,
       import_mapping = Map.empty,
       class_inheritance =
         [(''p.D'', [''p.B'', ''p.C'']), (''p.B'', [''p.A'']), (''p.C'', [''p.A'', ''p.D''])],
       resolve_class_name = (\<lambda>_ _. None),
       infer_expression_return_type = (\<lambda>_ _ _. None),
       build_local_variable_type_map = (\<lambda>_ _. []) \<rparr>"

text \<open>
  Scenario 4 of the specification: \<^verbatim>\<open>Car(Vehicle)\<close> in \<^verbatim>\<open>project.v\<close>, with
  \<^verbatim>\<open>Vehicle.start_engine\<close> and \<^verbatim>\<open>Car.start\<close> registered.
\<close>

definition registry_vehicles :: "(string \<times> string) list" where
  "registry_vehicles =
     [(''project.v.Vehicle.start_engine'', ''Method''), (''project.v.Car.start'', ''Method'')]"

definition env_vehicles :: env where
  "env_vehicles =
     \<lparr> function_registry = map_of registry_vehicles,
       find_ending_with = registry_find_ending_with registry_vehicles,
       import_mapping = Map.empty,
       class_inheritance = [(''project.v.Car'', [''project.v.Vehicle''])],
       resolve_class_name = (\<lambda>_ _. None),
       infer_expression_return_type = (\<lambda>_ _ _. None),
       build_local_variable_type_map = (\<lambda>_ _. []) \<rparr>"




text \<open>
  A Python-like language configuration: the node types of modules, classes and
  functions, and the node types that the three queries capture.
\<close>

definition python_queries :: lang_queries where
  "python_queries =
     \<lparr> config = \<lparr> module_node_types = [''module''],
                  class_node_types = [''class_definition''],
                  function_node_types = [''function_definition''] \<rparr>,
       functions_query = [''function_definition''],
       classes_query = [''class_definition''],
       calls_query = Some [''call''] \<rparr>"

definition ident_node :: "string \<Rightarrow> string \<Rightarrow> node" where
  "ident_node field text = Node (Some field) ''identifier'' (Some text) []"

text \<open>The call \<^verbatim>\<open>name()\<close>, hanging under \<open>field\<close> below its parent.\<close>

definition call_to :: "string option \<Rightarrow> string \<Rightarrow> node" where
  "call_to field name = Node field ''call'' (Some (name @ ''()''))
     [ident_node ''function'' name,
      Node (Some ''arguments'') ''argument_list'' (Some ''()'') []]"

definition call_f :: node where
  "call_f = call_to None ''f''"

definition call_unknown :: node where
  "call_unknown = call_to None ''unknown''"

text \<open>
  The module \<^verbatim>\<open>M\<close>:
  \<^verbatim>\<open>
  class C:
      def m(self):
          def inner():
              f()
  \<close>
  The first pass over the repository registers \<^verbatim>\<open>M.f\<close>, the method \<^verbatim>\<open>M.C.m\<close> and the nested
  function under the name \<^verbatim>\<open>M.C.m.inner\<close>.
\<close>

definition stmt_f :: node where
  "stmt_f = Node None ''expression_statement'' None [call_f]"

definition body_inner :: node where
  "body_inner = Node (Some ''body'') ''block'' None [stmt_f]"

definition def_inner :: node where
  "def_inner = Node None ''function_definition'' None [ident_node ''name'' ''inner'', body_inner]"

definition body_m :: node where
  "body_m = Node (Some ''body'') ''block'' None [def_inner]"

definition def_m :: node where
  "def_m = Node None ''function_definition'' None [ident_node ''name'' ''m'', body_m]"

definition body_C :: node where
  "body_C = Node (Some ''body'') ''block'' None [def_m]"

definition class_C :: node where
  "class_C = Node None ''class_definition'' None [ident_node ''name'' ''C'', body_C]"

definition module_nested :: node where
  "module_nested = Node None ''module'' None [class_C]"

definition registry_nested :: "(string \<times> string) list" where
  "registry_nested =
     [(''M.f'', ''Function''), (''M.C.m'', ''Method''), (''M.C.m.inner'', ''Function'')]"

definition env_nested :: env where
  "env_nested =
     \<lparr> function_registry = map_of registry_nested,
       find_ending_with = registry_find_ending_with registry_nested,
       import_mapping = map_of [(''M'', [])],
       class_inheritance = [],
       resolve_class_name = (\<lambda>_ _. None),
       infer_expression_return_type = (\<lambda>_ _ _. None),
       build_local_variable_type_map = (\<lambda>_ _. []) \<rparr>"

text \<open>
  A function \<^verbatim>\<open>g\<close> of the module \<^verbatim>\<open>M\<close> whose body is the chained call \<^verbatim>\<open>f().h()\<close>. The
  callee of the outer call is the attribute \<^verbatim>\<open>f().h\<close>, with the call \<^verbatim>\<open>f()\<close> inside.
\<close>

definition caller_g :: caller where
  "caller_g =
     \<lparr> cr_qn = ''M.g'', cr_type = ''Function'', cr_module_qn = ''M'',
       cr_var_types = Some [], cr_class_context = None \<rparr>"

definition callee_chain :: node where
  "callee_chain = Node (Some ''function'') ''attribute'' (Some ''f().h'')
     [call_to (Some ''object'') ''f'', ident_node ''attribute'' ''h'']"

definition call_chain :: node where
  "call_chain = Node None ''call'' (Some ''f().h()'')
     [callee_chain, Node (Some ''arguments'') ''argument_list'' (Some ''()'') []]"

definition def_g :: node where
  "def_g = Node None ''function_definition'' None
     [ident_node ''name'' ''g'',
      Node (Some ''body'') ''block'' None [Node None ''expression_statement'' None [call_chain]]]"

section \<open>Wildcard expansion\<close>

lemma first_registered_append:
  "first_registered reg (xs @ ys) =
     (case first_registered reg xs of Some hit \<Rightarrow> Some hit | None \<Rightarrow> first_registered reg ys)"
  by (induction xs) (auto split: option.splits)

text \<open>
  C2, as the code has it: the wildcard loop returns the first registered name of the
  probe sequence that takes, for each wildcard entry in insertion order, only the
  \<^verbatim>\<open>::\<close>-joined name when the package QN contains \<^verbatim>\<open>::\<close>, and the \<^verbatim>\<open>.\<close>-joined name followed
  by the \<^verbatim>\<open>::\<close>-joined name when it does not.
\<close>

theorem wildcard_probe_sequence:
  "resolve_wildcard reg items call_name =
     first_registered reg
       (concat (map (\<lambda>(local_name, imported_qn).
          if \<not> prefix ''*'' local_name then []
          else if has_double_colon imported_qn then [imported_qn @ ''::'' @ call_name]
          else [imported_qn @ ''.'' @ call_name, imported_qn @ ''::'' @ call_name]) items))"
proof (induction items)
  case Nil
  show ?case by simp
next
  case (Cons item items)
  obtain local_name imported_qn where item: "item = (local_name, imported_qn)"
    by (cases item)
  show ?case
    unfolding item using Cons.IH
    by (simp add: first_registered_append wildcard_potential_qns_def split: option.splits)
qed

text \<open>
  C2 as stated fails: for the package \<^verbatim>\<open>a::b\<close> the \<^verbatim>\<open>.\<close>-joined name \<^verbatim>\<open>a::b.f\<close> is not among
  the probes, and a registry that holds only that name gives no wildcard hit.
\<close>

theorem wildcard_double_colon_counterexample:
  "has_double_colon ''a::b''
   \<and> ''a::b.f'' \<notin> set (wildcard_potential_qns ''a::b'' ''f'')
   \<and> resolve_wildcard (map_of [(''a::b.f'', ''Function'')]) [(''*a::b'', ''a::b'')] ''f'' = None"
  by (simp add: wildcard_potential_qns_def)

section \<open>Terminal phases\<close>

lemma resolve_inherited_method_tables:
  "resolve_inherited_method (e\<lparr>import_mapping := im, find_ending_with := few\<rparr>) c m
     = resolve_inherited_method e c m"
  by (simp add: resolve_inherited_method_def cong: option.case_cong)

lemma resolve_super_call_tables:
  "resolve_super_call (e\<lparr>import_mapping := im, find_ending_with := few\<rparr>) n q ctx
     = resolve_super_call e n q ctx"
  by (simp add: resolve_super_call_def resolve_inherited_method_tables cong: option.case_cong if_cong)

lemma resolve_chained_call_tables:
  "resolve_chained_call (e\<lparr>import_mapping := im, find_ending_with := few\<rparr>) n q lvt
     = resolve_chained_call e n q lvt"
  by (simp add: resolve_chained_call_def resolve_inherited_method_tables Let_def
      cong: option.case_cong if_cong prod.case_cong)

text \<open>
  C9: a call name that starts with \<^verbatim>\<open>super()\<close> gets exactly the result of the super-call
  phase, and any other call name that contains a dot and is a method chain gets exactly
  the result of the chain phase, hit or miss; the result does not depend on the import
  maps or on the suffix lookup, which only the later phases read.
\<close>

theorem terminal_phases:
  "(prefix ''super()'' call_name \<longrightarrow>
      resolve_function_call e call_name module_qn local_var_types class_context
        = Inr (resolve_super_call e call_name module_qn class_context)
      \<and> resolve_function_call (e\<lparr>import_mapping := im, find_ending_with := few\<rparr>)
           call_name module_qn local_var_types class_context
        = resolve_function_call e call_name module_qn local_var_types class_context)
   \<and> (\<not> prefix ''super()'' call_name \<and> has_dot call_name \<and> is_method_chain call_name \<longrightarrow>
      resolve_function_call e call_name module_qn local_var_types class_context
        = Inr (resolve_chained_call e call_name module_qn local_var_types)
      \<and> resolve_function_call (e\<lparr>import_mapping := im, find_ending_with := few\<rparr>)
           call_name module_qn local_var_types class_context
        = resolve_function_call e call_name module_qn local_var_types class_context)"
  by (simp add: resolve_function_call_def resolve_super_call_tables resolve_chained_call_tables)

theorem terminal_phases_witness:
  "resolve_function_call env_terminal ''super().start'' ''M'' None None = Inr None
   \<and> resolve_heuristic env_terminal ''super().start'' ''M''
       = Inr (Some (''Function'', ''M.super().start''))
   \<and> resolve_function_call env_terminal ''a.b().c'' ''M'' None None = Inr None
   \<and> resolve_heuristic env_terminal ''a.b().c'' ''M''
       = Inr (Some (''Function'', ''M.a.b().c''))"
proof -
  have s: "prefix ''super()'' ''super().start''" by simp
  have c: "\<not> prefix ''super()'' ''a.b().c'' \<and> has_dot ''a.b().c'' \<and> is_method_chain ''a.b().c''"
    by (simp add: has_dot_def is_method_chain_def has_parens_def)
  have "resolve_super_call env_terminal ''super().start'' ''M'' None = None"
    by (simp add: resolve_super_call_def)
  moreover have "resolve_chained_call env_terminal ''a.b().c'' ''M'' None = None"
    by (simp add: resolve_chained_call_def final_method_match_def env_terminal_def)
  moreover have "resolve_heuristic env_terminal ''super().start'' ''M''
       = Inr (Some (''Function'', ''M.super().start''))"
    by (simp add: resolve_heuristic_def env_terminal_def)
  moreover have "resolve_heuristic env_terminal ''a.b().c'' ''M''
       = Inr (Some (''Function'', ''M.a.b().c''))"
    by (simp add: resolve_heuristic_def env_terminal_def)
  ultimately show ?thesis
    using terminal_phases [of "''super().start''" env_terminal "''M''" None None]
      terminal_phases [of "''a.b().c''" env_terminal "''M''" None None] s c
    by simp
qed

section \<open>Splitting and joining qualified names\<close>

lemma split_dot_nonempty: "split_dot s \<noteq> []"
  by (induction s) (auto split: list.splits)

lemma split_dot_append_dot:
  "CHR ''.'' \<notin> set a \<Longrightarrow> split_dot (a @ CHR ''.'' # b) = a # split_dot b"
  by (induction a) (auto split: list.splits)

lemma split_dot_nodot: "p \<in> set (split_dot s) \<Longrightarrow> CHR ''.'' \<notin> set p"
  by (induction s arbitrary: p) (auto split: list.splits if_splits)

lemma split_dot_single: "CHR ''.'' \<notin> set p \<Longrightarrow> split_dot p = [p]"
  by (induction p) (auto split: list.splits)

lemma join_split_dot: "join_dot (split_dot s) = s"
proof (induction s)
  case Nil
  show ?case by simp
next
  case (Cons c cs)
  obtain p ps where sp: "split_dot cs = p # ps"
    using split_dot_nonempty [of cs] by (cases "split_dot cs") auto
  show ?case
  proof (cases "c = CHR ''.''")
    case True
    with Cons sp show ?thesis by simp
  next
    case False
    with Cons sp show ?thesis by (cases ps) auto
  qed
qed

lemma join_dot_append:
  "xs \<noteq> [] \<Longrightarrow> ys \<noteq> [] \<Longrightarrow> join_dot (xs @ ys) = join_dot xs @ CHR ''.'' # join_dot ys"
  by (induction xs rule: join_dot.induct) (auto simp: neq_Nil_conv)

lemma split_join_append:
  "P \<noteq> [] \<Longrightarrow> (\<And>p. p \<in> set P \<Longrightarrow> CHR ''.'' \<notin> set p) \<Longrightarrow>
   split_dot (join_dot P @ CHR ''.'' # t) = P @ split_dot t"
proof (induction P rule: join_dot.induct)
  case 1
  then show ?case by simp
next
  case (2 p)
  then show ?case by (simp add: split_dot_append_dot)
next
  case (3 p q ps)
  have "split_dot (join_dot (q # ps) @ CHR ''.'' # t) = (q # ps) @ split_dot t"
    using 3 by simp
  moreover have "CHR ''.'' \<notin> set p" using 3 by simp
  ultimately show ?case
    by (simp add: split_dot_append_dot)
qed

section \<open>Import distance\<close>

lemma prefix_join_dot_iff:
  assumes "Q \<noteq> []" and nodot: "\<And>p. p \<in> set Q \<Longrightarrow> CHR ''.'' \<notin> set p"
  shows "prefix (join_dot Q @ ''.'') s \<longleftrightarrow> strict_prefix Q (split_dot s)"
proof
  assume "prefix (join_dot Q @ ''.'') s"
  then obtain t where s: "s = join_dot Q @ CHR ''.'' # t"
    by (auto simp: prefix_def)
  have "split_dot s = Q @ split_dot t"
    unfolding s using assms by (intro split_join_append) auto
  then show "strict_prefix Q (split_dot s)"
    using split_dot_nonempty [of t] by (simp add: strict_prefix_def)
next
  assume "strict_prefix Q (split_dot s)"
  then obtain rest where sp: "split_dot s = Q @ rest" and rest: "rest \<noteq> []"
    by (auto simp: strict_prefix_def prefix_def)
  have "s = join_dot (Q @ rest)"
    using join_split_dot [of s] sp by simp
  also have "\<dots> = join_dot Q @ CHR ''.'' # join_dot rest"
    using assms(1) rest by (rule join_dot_append)
  finally show "prefix (join_dot Q @ ''.'') s"
    by (simp add: prefix_def)
qed

lemma bonus_iff_descendant:
  "prefix (join_dot (butlast (split_dot caller)) @ ''.'') cand
     \<longleftrightarrow> strict_prefix (split_dot (parent_package caller)) (split_dot cand)"
proof -
  let ?Q = "split_dot (parent_package caller)"
  have ne: "?Q \<noteq> []" by (rule split_dot_nonempty)
  have nodot: "\<And>p. p \<in> set ?Q \<Longrightarrow> CHR ''.'' \<notin> set p"
    by (rule split_dot_nodot)
  have "join_dot ?Q = join_dot (butlast (split_dot caller))"
    by (simp add: join_split_dot parent_package_def)
  then show ?thesis
    using prefix_join_dot_iff [OF ne nodot, of cand] by simp
qed

lemma common_prefix_length:
  "common_prefix xs ys = length (longest_common_prefix xs ys)"
  by (induction xs ys rule: common_prefix.induct) auto

text \<open>
  C3, as the code has it: the distance is the longer of the two component counts, less
  the length of the common component prefix, less one exactly when the components of
  the caller's parent package are a proper prefix of the candidate's components, that
  is, for every descendant of that package, at any depth.
\<close>

theorem import_distance_descendant:
  "calculate_import_distance candidate_qn caller_module_qn =
     int (max (length (split_dot caller_module_qn)) (length (split_dot candidate_qn)))
     - int (length (longest_common_prefix (split_dot caller_module_qn) (split_dot candidate_qn)))
     - (if strict_prefix (split_dot (parent_package caller_module_qn)) (split_dot candidate_qn)
        then 1 else 0)"
  by (simp add: calculate_import_distance_def Let_def bonus_iff_descendant common_prefix_length
      del: One_nat_def)

text \<open>
  C3 as stated fails: \<^verbatim>\<open>p.a.x.f\<close> lies two levels below \<^verbatim>\<open>p.a\<close>, the parent package of the
  caller \<^verbatim>\<open>p.a.m\<close>, and still gets the bonus: the code computes 1 where the stated rule
  gives 2.
\<close>

theorem import_distance_counterexample:
  "calculate_import_distance ''p.a.x.f'' ''p.a.m'' = 1
   \<and> spec_import_distance ''p.a.x.f'' ''p.a.m'' = 2
   \<and> split_dot ''p.a.x.f'' = [''p'', ''a'', ''x'', ''f'']
   \<and> split_dot (parent_package ''p.a.m'') = [''p'', ''a'']"
  by (simp add: calculate_import_distance_def spec_import_distance_def parent_package_def)

section \<open>The inheritance walk\<close>

lemma enqueue_unvisited_queue:
  "enqueue_unvisited gs queue visited
     = (queue @ fst (enqueue_unvisited gs [] visited), snd (enqueue_unvisited gs [] visited))"
proof (induction gs arbitrary: queue visited)
  case Nil
  show ?case by simp
next
  case (Cons g gs)
  show ?case
    using Cons.IH [of "queue @ [g]" "insert g visited"] Cons.IH [of "[g]" "insert g visited"]
      Cons.IH [of queue visited]
    by simp
qed

lemma inherited_walk_step:
  "inherited_walk reg table m (p # queue) visited =
     (case reg (p @ ''.'' @ m) of
        Some kind \<Rightarrow> Some (kind, p @ ''.'' @ m)
      | None \<Rightarrow>
          inherited_walk reg table m
            (fst (enqueue_unvisited (declared_parents table p) queue visited))
            (snd (enqueue_unvisited (declared_parents table p) queue visited)))"
  by (simp add: declared_parents_def split: option.splits)

lemma inherited_walk_level:
  "inherited_walk reg table m (level @ pending) visited =
     (case first_registered reg (map (\<lambda>p. p @ ''.'' @ m) level) of
        Some hit \<Rightarrow> Some hit
      | None \<Rightarrow>
          inherited_walk reg table m
            (pending @ fst (next_level table level visited))
            (snd (next_level table level visited)))"
proof (induction level arbitrary: pending visited)
  case Nil
  show ?case by simp
next
  case (Cons c cs)
  let ?found = "enqueue_unvisited (declared_parents table c) [] visited"
  have enq: "enqueue_unvisited (declared_parents table c) (cs @ pending) visited
      = (cs @ pending @ fst ?found, snd ?found)"
    using enqueue_unvisited_queue [of "declared_parents table c" "cs @ pending" visited]
    by simp
  show ?case
  proof (cases "reg (c @ ''.'' @ m)")
    case (Some kind)
    then show ?thesis
      using inherited_walk_step [of reg table m c "cs @ pending" visited]
      by (simp del: inherited_walk.simps next_level.simps)
  next
    case None
    have "inherited_walk reg table m ((c # cs) @ pending) visited
        = inherited_walk reg table m (cs @ (pending @ fst ?found)) (snd ?found)"
      using inherited_walk_step [of reg table m c "cs @ pending" visited] None enq
      by (simp del: inherited_walk.simps)
    also have "\<dots> =
       (case first_registered reg (map (\<lambda>p. p @ ''.'' @ m) cs) of
          Some hit \<Rightarrow> Some hit
        | None \<Rightarrow>
            inherited_walk reg table m
              ((pending @ fst ?found) @ fst (next_level table cs (snd ?found)))
              (snd (next_level table cs (snd ?found))))"
      by (rule Cons.IH)
    finally show ?thesis using None
      by (simp add: Let_def del: inherited_walk.simps cong: option.case_cong)
  qed
qed

lemma inherited_walk_bfs_levels:
  "inherited_walk reg table m level visited =
     first_registered reg (map (\<lambda>p. p @ ''.'' @ m) (bfs_levels table level visited))"
proof (induction table level visited rule: bfs_levels.induct)
  case (1 table visited)
  show ?case by simp
next
  case (2 table c cs visited)
  let ?new = "fst (next_level table (c # cs) visited)"
  let ?vis = "snd (next_level table (c # cs) visited)"
  let ?qn = "\<lambda>p. p @ ''.'' @ m"
  have A: "inherited_walk reg table m (c # cs) visited =
     (case first_registered reg (map ?qn (c # cs)) of
        Some hit \<Rightarrow> Some hit
      | None \<Rightarrow> inherited_walk reg table m ?new ?vis)"
    using inherited_walk_level [of reg table m "c # cs" "[]" visited]
    by (simp del: next_level.simps first_registered.simps inherited_walk.simps
        cong: option.case_cong)
  have B: "bfs_levels table (c # cs) visited = (c # cs) @ bfs_levels table ?new ?vis"
    by (simp only: bfs_levels.simps)
  have C: "first_registered reg (map ?qn ((c # cs) @ bfs_levels table ?new ?vis)) =
     (case first_registered reg (map ?qn (c # cs)) of
        Some hit \<Rightarrow> Some hit
      | None \<Rightarrow> first_registered reg (map ?qn (bfs_levels table ?new ?vis)))"
    by (simp only: map_append first_registered_append)
  have D: "inherited_walk reg table m ?new ?vis
      = first_registered reg (map ?qn (bfs_levels table ?new ?vis))"
    by (rule "2.IH")
  show ?case
    by (simp only: A B C D)
qed

lemma level_in_bfs_levels: "set level \<subseteq> set (bfs_levels table level visited)"
  by (cases level) auto

lemma parent_rel_Image: "parent_rel table `` S = (\<Union>c\<in>S. set (declared_parents table c))"
  by (auto simp: parent_rel_def)

lemma bfs_levels_reach:
  "set level \<subseteq> visited \<Longrightarrow> parent_rel table `` (visited - set level) \<subseteq> visited \<Longrightarrow>
   set (bfs_levels table level visited) \<union> visited = (parent_rel table)\<^sup>* `` visited"
proof (induction table level visited rule: bfs_levels.induct)
  case (1 table visited)
  then have "parent_rel table `` visited \<subseteq> visited" by simp
  then have "(parent_rel table)\<^sup>* `` visited = visited"
    by (rule Image_closed_trancl)
  then show ?case by simp
next
  case (2 table c cs visited)
  let ?R = "parent_rel table"
  let ?L = "set (c # cs)"
  let ?new = "fst (next_level table (c # cs) visited)"
  let ?vis = "snd (next_level table (c # cs) visited)"
  have vis: "?vis = visited \<union> ?R `` ?L"
    unfolding parent_rel_Image by (rule next_level_sets)
  have new: "set ?new = ?R `` ?L - visited"
    unfolding parent_rel_Image by (rule next_level_sets)
  have L: "?L \<subseteq> visited" using "2.prems" by simp
  have closed: "?R `` (visited - ?L) \<subseteq> visited" using "2.prems" by simp
  have "set ?new \<subseteq> ?vis" using vis new by blast
  moreover have "?R `` (?vis - set ?new) \<subseteq> ?vis"
  proof -
    have "?vis - set ?new \<subseteq> visited" using vis new by blast
    then have "?R `` (?vis - set ?new) \<subseteq> ?R `` visited" by blast
    also have "\<dots> \<subseteq> ?R `` (visited - ?L) \<union> ?R `` ?L" by blast
    also have "\<dots> \<subseteq> ?vis" using closed vis by blast
    finally show ?thesis .
  qed
  ultimately have IH: "set (bfs_levels table ?new ?vis) \<union> ?vis = ?R\<^sup>* `` ?vis"
    by (rule "2.IH")
  have "set ?new \<subseteq> set (bfs_levels table ?new ?vis)"
    by (rule level_in_bfs_levels)
  then have "set (bfs_levels table ?new ?vis) \<union> visited
      = set (bfs_levels table ?new ?vis) \<union> ?vis"
    using vis new by blast
  moreover have "?R\<^sup>* `` ?vis = ?R\<^sup>* `` visited"
  proof
    show "?R\<^sup>* `` visited \<subseteq> ?R\<^sup>* `` ?vis" using vis by blast
    have "?vis \<subseteq> ?R\<^sup>* `` visited" using vis L by blast
    then have "?R\<^sup>* `` ?vis \<subseteq> ?R\<^sup>* `` (?R\<^sup>* `` visited)" by blast
    also have "\<dots> \<subseteq> ?R\<^sup>* `` visited"
      by (blast intro: rtrancl_trans)
    finally show "?R\<^sup>* `` ?vis \<subseteq> ?R\<^sup>* `` visited" .
  qed
  moreover have "?L \<subseteq> ?R\<^sup>* `` visited" using L by blast
  ultimately have "?L \<union> set (bfs_levels table ?new ?vis) \<union> visited = ?R\<^sup>* `` visited"
    using IH by blast
  then show ?case
    by (simp del: next_level.simps add: Un_assoc)
qed

lemma bfs_levels_ancestors:
  "set (bfs_levels table (declared_parents table c) (set (declared_parents table c)))
     = ancestors table c"
proof -
  let ?ps = "declared_parents table c"
  let ?R = "parent_rel table"
  have "set (bfs_levels table ?ps (set ?ps)) \<union> set ?ps = ?R\<^sup>* `` set ?ps"
    by (rule bfs_levels_reach) auto
  moreover have "set ?ps \<subseteq> set (bfs_levels table ?ps (set ?ps))"
    by (rule level_in_bfs_levels)
  ultimately have "set (bfs_levels table ?ps (set ?ps)) = ?R\<^sup>* `` set ?ps"
    by blast
  moreover have "set ?ps = ?R `` {c}"
    by (simp add: parent_rel_Image)
  moreover have "?R\<^sup>* `` (?R `` {c}) = ancestors table c"
    unfolding ancestors_def by (auto simp: trancl_unfold_left relcomp_unfold)
  ultimately show ?thesis by simp
qed

lemma first_registered_None_iff:
  "first_registered reg qs = None \<longleftrightarrow> (\<forall>q\<in>set qs. reg q = None)"
  by (induction qs) (auto split: option.splits)

lemma resolve_inherited_method_levels:
  "resolve_inherited_method e class_qn method_name =
     first_registered (function_registry e)
       (map (\<lambda>p. p @ ''.'' @ method_name)
          (bfs_levels (class_inheritance e)
             (declared_parents (class_inheritance e) class_qn)
             (set (declared_parents (class_inheritance e) class_qn))))"
  by (simp add: resolve_inherited_method_def declared_parents_def inherited_walk_bfs_levels
      del: inherited_walk.simps split: option.splits)

text \<open>
  C6: the walk is a total function (its termination is proved with the definition, for
  every table, cyclic or not). It returns the first registered method along the
  breadth-first order of the specification, which starts with the declared parents in
  their order; the classes of that order are exactly the ancestors of the class; and
  the walk returns \<open>None\<close> exactly when no ancestor has the method.
\<close>

theorem inheritance_walk_breadth_first:
  "resolve_inherited_method e class_qn method_name =
     first_registered (function_registry e)
       (map (\<lambda>p. p @ ''.'' @ method_name)
          (bfs_levels (class_inheritance e)
             (declared_parents (class_inheritance e) class_qn)
             (set (declared_parents (class_inheritance e) class_qn))))
   \<and> set (bfs_levels (class_inheritance e)
             (declared_parents (class_inheritance e) class_qn)
             (set (declared_parents (class_inheritance e) class_qn)))
       = ancestors (class_inheritance e) class_qn
   \<and> (resolve_inherited_method e class_qn method_name = None
        \<longleftrightarrow> (\<forall>p \<in> ancestors (class_inheritance e) class_qn.
               function_registry e (p @ ''.'' @ method_name) = None))"
proof (intro conjI)
  show "resolve_inherited_method e class_qn method_name =
     first_registered (function_registry e)
       (map (\<lambda>p. p @ ''.'' @ method_name)
          (bfs_levels (class_inheritance e)
             (declared_parents (class_inheritance e) class_qn)
             (set (declared_parents (class_inheritance e) class_qn))))"
    by (rule resolve_inherited_method_levels)
  show "set (bfs_levels (class_inheritance e)
             (declared_parents (class_inheritance e) class_qn)
             (set (declared_parents (class_inheritance e) class_qn)))
       = ancestors (class_inheritance e) class_qn"
    by (rule bfs_levels_ancestors)
  show "resolve_inherited_method e class_qn method_name = None
        \<longleftrightarrow> (\<forall>p \<in> ancestors (class_inheritance e) class_qn.
               function_registry e (p @ ''.'' @ method_name) = None)"
    unfolding resolve_inherited_method_levels first_registered_None_iff
      bfs_levels_ancestors [symmetric]
    by simp
qed


theorem inheritance_walk_breadth_first_witness:
  "resolve_inherited_method env_diamond ''p.D'' ''run'' = Some (''Method'', ''p.C.run'')
   \<and> resolve_inherited_method env_diamond ''p.D'' ''stop'' = None
   \<and> ancestors (class_inheritance env_diamond) ''p.D'' = {''p.B'', ''p.C'', ''p.A'', ''p.D''}"
proof -
  have order: "bfs_levels (class_inheritance env_diamond)
        (declared_parents (class_inheritance env_diamond) ''p.D'')
        (set (declared_parents (class_inheritance env_diamond) ''p.D''))
      = [''p.B'', ''p.C'', ''p.A'', ''p.D'']"
    by (simp add: env_diamond_def declared_parents_def)
  have reg: "function_registry env_diamond = map_of registry_diamond"
    by (simp add: env_diamond_def)
  show ?thesis
    using inheritance_walk_breadth_first [of env_diamond "''p.D''" "''run''"]
      inheritance_walk_breadth_first [of env_diamond "''p.D''" "''stop''"]
    unfolding order reg
    by (simp add: registry_diamond_def)
qed

section \<open>Super calls\<close>

lemma first_registered_find:
  "find (\<lambda>p. reg (f p) \<noteq> None) ps = Some p \<Longrightarrow> reg (f p) = Some kind \<Longrightarrow>
   first_registered reg (map f ps) = Some (kind, f p)"
  by (induction ps) (auto split: if_splits)

lemma after_first_dot_super: "after_first_dot (''super().'' @ method_name) = method_name"
  by (simp add: after_first_dot_def)

lemma resolve_super_call_first_parent:
  assumes "class_qn \<noteq> []"
    and "find (\<lambda>p. function_registry e (p @ ''.'' @ method_name) \<noteq> None)
           (declared_parents (class_inheritance e) class_qn) = Some parent"
    and "function_registry e (parent @ ''.'' @ method_name) = Some kind"
  shows "resolve_super_call e (''super().'' @ method_name) module_qn (Some class_qn)
           = Some (kind, parent @ ''.'' @ method_name)"
proof -
  let ?ps = "declared_parents (class_inheritance e) class_qn"
  let ?qn = "\<lambda>p. p @ ''.'' @ method_name"
  from assms(2) have ne: "?ps \<noteq> []" by auto
  then obtain c cs where ps: "?ps = c # cs" by (cases ?ps) auto
  have table: "map_of (class_inheritance e) class_qn = Some ?ps"
    using ne by (auto simp: declared_parents_def split: option.splits)
  have hit: "first_registered (function_registry e) (map ?qn ?ps)
      = Some (kind, parent @ ''.'' @ method_name)"
    using assms(2,3) by (rule first_registered_find)
  have "bfs_levels (class_inheritance e) ?ps (set ?ps)
      = ?ps @ bfs_levels (class_inheritance e)
                (fst (next_level (class_inheritance e) ?ps (set ?ps)))
                (snd (next_level (class_inheritance e) ?ps (set ?ps)))"
    unfolding ps by (simp only: bfs_levels.simps)
  then have "resolve_inherited_method e class_qn method_name
      = Some (kind, parent @ ''.'' @ method_name)"
    using hit
    by (simp only: resolve_inherited_method_levels map_append first_registered_append
        option.case)
  moreover have "has_dot (''super().'' @ method_name)"
    by (simp add: has_dot_def)
  ultimately show ?thesis
    using table ne assms(1) after_first_dot_super [of method_name]
    by (simp add: resolve_super_call_def)
qed

text \<open>
  C7: for a call name \<^verbatim>\<open>super().method_name\<close>, when the class context is a class (not
  the empty string) whose declared parents include one with \<^verbatim>\<open>method_name\<close> registered,
  the resolver returns the method of the first such parent in declared order, with its
  registered kind; when there is no class context, it returns \<open>None\<close>.
\<close>

theorem super_call_resolution:
  "(class_qn \<noteq> []
      \<and> find (\<lambda>p. function_registry e (p @ ''.'' @ method_name) \<noteq> None)
           (declared_parents (class_inheritance e) class_qn) = Some parent
      \<and> function_registry e (parent @ ''.'' @ method_name) = Some kind
    \<longrightarrow> resolve_function_call e (''super().'' @ method_name) module_qn local_var_types
          (Some class_qn)
        = Inr (Some (kind, parent @ ''.'' @ method_name)))
   \<and> resolve_function_call e (''super().'' @ method_name) module_qn local_var_types None
       = Inr None"
proof (intro conjI impI)
  assume "class_qn \<noteq> []
      \<and> find (\<lambda>p. function_registry e (p @ ''.'' @ method_name) \<noteq> None)
           (declared_parents (class_inheritance e) class_qn) = Some parent
      \<and> function_registry e (parent @ ''.'' @ method_name) = Some kind"
  then have "resolve_super_call e (''super().'' @ method_name) module_qn (Some class_qn)
           = Some (kind, parent @ ''.'' @ method_name)"
    by (intro resolve_super_call_first_parent) auto
  then show "resolve_function_call e (''super().'' @ method_name) module_qn local_var_types
          (Some class_qn)
        = Inr (Some (kind, parent @ ''.'' @ method_name))"
    by (simp add: resolve_function_call_def)
next
  show "resolve_function_call e (''super().'' @ method_name) module_qn local_var_types None
       = Inr None"
    by (simp add: resolve_function_call_def resolve_super_call_def)
qed

theorem super_call_resolution_witness:
  "resolve_function_call env_vehicles ''super().start_engine'' ''project.v''
       (Some []) (Some ''project.v.Car'')
     = Inr (Some (''Method'', ''project.v.Vehicle.start_engine''))
   \<and> resolve_function_call env_vehicles ''super().start_engine'' ''project.v'' (Some []) None
     = Inr None"
proof -
  have "''project.v.Car'' \<noteq> []
      \<and> find (\<lambda>p. function_registry env_vehicles (p @ ''.'' @ ''start_engine'') \<noteq> None)
           (declared_parents (class_inheritance env_vehicles) ''project.v.Car'')
         = Some ''project.v.Vehicle''
      \<and> function_registry env_vehicles (''project.v.Vehicle'' @ ''.'' @ ''start_engine'')
         = Some ''Method''"
    by (simp add: env_vehicles_def registry_vehicles_def declared_parents_def)
  then show ?thesis
    using super_call_resolution [of "''project.v.Car''" env_vehicles "''start_engine''"
        "''project.v.Vehicle''" "''Method''" "''project.v''" "Some []"]
    by simp
qed

section \<open>Calls on a local variable\<close>








section \<open>Sequencing of emissions\<close>

lemma then_do_empty [simp]: "then_do ([], None) b = b" "then_do a ([], None) = a"
  by (cases a; cases b; auto simp: then_do_def split: option.splits)+

lemma then_do_assoc: "then_do (then_do a b) c = then_do a (then_do b c)"
  by (auto simp: then_do_def split: option.splits)

lemma snd_then_do: "snd (then_do a b) = None \<longleftrightarrow> snd a = None \<and> snd b = None"
  by (auto simp: then_do_def split: option.splits)

lemma fst_then_do: "snd a = None \<Longrightarrow> fst (then_do a b) = fst a @ fst b"
  by (simp add: then_do_def)

lemma set_fst_then_do: "set (fst (then_do a b)) \<subseteq> set (fst a) \<union> set (fst b)"
  by (auto simp: then_do_def split: option.splits)

lemma ingest_call_nodes_append:
  "ingest_call_nodes e c (xs @ ys) = then_do (ingest_call_nodes e c xs) (ingest_call_nodes e c ys)"
  by (induction xs) (simp_all add: then_do_assoc)

section \<open>Resolution misses\<close>

text \<open>
  C8: when the resolver returns \<open>None\<close> for the name of a call site, that call site
  emits no edge: its round of the loop does only the nested-call descent, and the loop
  over the captured call sites is the loop over those before it, then that descent,
  then the loop over those after it.
\<close>

theorem resolution_miss_emits_nothing:
  assumes "get_call_target_name call_node = Some call_name"
    and "resolve_function_call e call_name (cr_module_qn c) (cr_var_types c) (cr_class_context c)
           = Inr None"
  shows "resolve_and_emit e c call_node = ([], None)
    \<and> ingest_call_node e c call_node = process_nested_calls_in_node e c call_node
    \<and> ingest_call_nodes e c (before @ call_node # after)
        = then_do (ingest_call_nodes e c before)
            (then_do (process_nested_calls_in_node e c call_node)
               (ingest_call_nodes e c after))"
proof -
  have miss: "resolve_and_emit e c call_node = ([], None)"
    using assms by (simp add: resolve_and_emit_def)
  then have node: "ingest_call_node e c call_node = process_nested_calls_in_node e c call_node"
    by (simp add: ingest_call_node_def del: process_nested_calls_in_node.simps)
  show ?thesis
    using miss node
    by (simp add: ingest_call_nodes_append del: process_nested_calls_in_node.simps)
qed

lemma get_call_target_name_call_to: "get_call_target_name (call_to field name) = Some name"
  by (simp add: get_call_target_name_def call_to_def child_by_field_name_def ident_node_def)

lemma process_nested_call_to: "process_nested_calls_in_node e c (call_to field name) = ([], None)"
  by (simp add: call_to_def child_by_field_name_def ident_node_def)

lemma resolve_f_nested:
  "resolve_function_call env_nested ''f'' ''M'' lvt None = Inr (Some (''Function'', ''M.f''))"
  by (simp add: resolve_function_call_def has_dot_def resolve_import_phase_def
      resolve_direct_import_def resolve_qualified_def resolve_heuristic_def
      env_nested_def registry_nested_def)

lemma resolve_unknown_nested:
  "resolve_function_call env_nested ''unknown'' ''M'' lvt None = Inr None"
  by (simp add: resolve_function_call_def has_dot_def resolve_import_phase_def
      resolve_direct_import_def resolve_qualified_def resolve_heuristic_def
      env_nested_def registry_nested_def registry_find_ending_with_def suffix_to_prefix)

theorem resolution_miss_emits_nothing_witness:
  "ingest_call_nodes env_nested caller_g [call_unknown, call_f]
     = ([((''Function'', ''qualified_name'', ''M.g''), ''CALLS'',
          (''Function'', ''qualified_name'', ''M.f''))], None)
   \<and> ingest_call_nodes env_nested caller_g [call_f]
     = ([((''Function'', ''qualified_name'', ''M.g''), ''CALLS'',
          (''Function'', ''qualified_name'', ''M.f''))], None)"
proof -
  have name: "get_call_target_name call_unknown = Some ''unknown''"
    by (simp add: call_unknown_def get_call_target_name_call_to)
  have miss: "resolve_function_call env_nested ''unknown'' (cr_module_qn caller_g)
      (cr_var_types caller_g) (cr_class_context caller_g) = Inr None"
    by (simp add: caller_g_def resolve_unknown_nested)
  have f: "ingest_call_nodes env_nested caller_g [call_f]
     = ([((''Function'', ''qualified_name'', ''M.g''), ''CALLS'',
          (''Function'', ''qualified_name'', ''M.f''))], None)"
    by (simp add: ingest_call_node_def call_f_def process_nested_call_to resolve_and_emit_def
        get_call_target_name_call_to caller_g_def resolve_f_nested calls_edge_def
        del: process_nested_calls_in_node.simps)
  have "process_nested_calls_in_node env_nested caller_g call_unknown = ([], None)"
    by (simp add: call_unknown_def process_nested_call_to del: process_nested_calls_in_node.simps)
  then show ?thesis
    using resolution_miss_emits_nothing [OF name miss, of "[]" "[call_f]"] f
    by (simp del: process_nested_calls_in_node.simps ingest_call_nodes.simps
        add: ingest_call_nodes.simps(1))
qed

section \<open>Subtrees and captures\<close>

lemma subtree_with_ancestors_nodes:
  "map fst (subtree_with_ancestors up n) = map fst (subtree_with_ancestors [] n)"
proof (induction n arbitrary: up)
  case (Node f t x cs)
  have below: "concat (map (\<lambda>c. map fst (subtree_with_ancestors up' c)) cs)
      = concat (map (\<lambda>c. map fst (subtree_with_ancestors [] c)) cs)" for up'
  proof -
    have "map (\<lambda>c. map fst (subtree_with_ancestors up' c)) cs
        = map (\<lambda>c. map fst (subtree_with_ancestors [] c)) cs"
      by (rule map_cong [OF refl]) (rule Node.IH)
    then show ?thesis by (rule arg_cong)
  qed
  show ?case
    using below [of "Node f t x cs # up"] below [of "[Node f t x cs]"]
    by (simp add: map_concat comp_def)
qed

lemma subtree_unfold: "subtree n = n # concat (map subtree (nchildren n))"
proof (cases n)
  case (Node f t x cs)
  have "map (\<lambda>c. map fst (subtree_with_ancestors [n] c)) cs
      = map (\<lambda>c. map fst (subtree_with_ancestors [] c)) cs"
    by (rule map_cong [OF refl]) (rule subtree_with_ancestors_nodes)
  then have "concat (map (\<lambda>c. map fst (subtree_with_ancestors [n] c)) cs)
      = concat (map (\<lambda>c. map fst (subtree_with_ancestors [] c)) cs)"
    by (rule arg_cong)
  then have "concat (map (\<lambda>c. map fst (subtree_with_ancestors [n] c)) cs)
      = concat (map subtree cs)"
    by (simp only: subtree_def [abs_def])
  then show ?thesis
    unfolding Node by (simp add: subtree_def map_concat comp_def)
qed

lemma subtree_self: "n \<in> set (subtree n)"
  by (subst subtree_unfold) simp

lemma subtree_child:
  "child \<in> set (nchildren n) \<Longrightarrow> m \<in> set (subtree child) \<Longrightarrow> m \<in> set (subtree n)"
  by (subst subtree_unfold) auto

lemma subtree_trans:
  "m \<in> set (subtree n) \<Longrightarrow> k \<in> set (subtree m) \<Longrightarrow> k \<in> set (subtree n)"
proof (induction n)
  case (Node f t x cs)
  from Node.prems(1) have "m = Node f t x cs \<or> (\<exists>child\<in>set cs. m \<in> set (subtree child))"
    by (subst (asm) subtree_unfold) auto
  then show ?case
  proof
    assume "m = Node f t x cs"
    with Node.prems(2) show ?thesis by simp
  next
    assume "\<exists>child\<in>set cs. m \<in> set (subtree child)"
    then obtain child where child: "child \<in> set cs" "m \<in> set (subtree child)" by auto
    then have "k \<in> set (subtree child)"
      using Node.IH Node.prems(2) by blast
    then show ?thesis
      using child(1) subtree_child [of child "Node f t x cs" k] by simp
  qed
qed

lemma subtree_size: "m \<in> set (subtree n) \<Longrightarrow> size m \<le> size n"
proof (induction n)
  case (Node f t x cs)
  from Node.prems have "m = Node f t x cs \<or> (\<exists>child\<in>set cs. m \<in> set (subtree child))"
    by (subst (asm) subtree_unfold) auto
  then show ?case
  proof
    assume "m = Node f t x cs"
    then show ?thesis by simp
  next
    assume "\<exists>child\<in>set cs. m \<in> set (subtree child)"
    then obtain child where child: "child \<in> set cs" "m \<in> set (subtree child)" by auto
    then have "size m \<le> size child" using Node.IH by blast
    moreover have "size child \<le> size_list size cs"
      using child(1) by (simp add: size_list_estimation')
    ultimately show ?thesis by simp
  qed
qed

lemma child_by_field_name_child:
  "child_by_field_name n f = Some c \<Longrightarrow> c \<in> set (nchildren n)"
  by (auto simp: child_by_field_name_def find_Some_iff)

section \<open>Nested calls\<close>

text \<open>
  When the descent from a node ends without an exception, it has emitted the edge of
  every call node below that node whose name resolves.
\<close>

lemma find_and_process_children_emits:
  assumes IH: "\<And>child. child \<in> set ns \<Longrightarrow> inner \<in> set (subtree child) \<Longrightarrow>
      snd (find_and_process_nested_calls e c child) = None \<Longrightarrow>
      edge \<in> set (fst (find_and_process_nested_calls e c child))"
    and "child \<in> set ns" "inner \<in> set (subtree child)"
    and "snd (find_and_process_children e c ns) = None"
  shows "edge \<in> set (fst (find_and_process_children e c ns))"
  using assms
proof (induction ns)
  case Nil
  then show ?case by simp
next
  case (Cons n ns)
  from Cons.prems(4) have ok: "snd (find_and_process_nested_calls e c n) = None"
    "snd (find_and_process_children e c ns) = None"
    by (simp_all add: snd_then_do del: find_and_process_nested_calls.simps)
  have split: "fst (find_and_process_children e c (n # ns))
      = fst (find_and_process_nested_calls e c n) @ fst (find_and_process_children e c ns)"
    using ok(1) by (simp add: fst_then_do del: find_and_process_nested_calls.simps)
  show ?case
  proof (cases "child = n")
    case True
    then have "edge \<in> set (fst (find_and_process_nested_calls e c n))"
      using Cons.prems(1,3) ok(1) by simp
    then show ?thesis unfolding split by simp
  next
    case False
    then have "child \<in> set ns" using Cons.prems(2) by simp
    then have "edge \<in> set (fst (find_and_process_children e c ns))"
      using Cons.IH Cons.prems(1,3) ok(2) by simp
    then show ?thesis unfolding split by simp
  qed
qed

lemma find_and_process_emits:
  assumes "ntype inner = ''call''"
    and "resolve_and_emit e c inner = ([edge], None)"
  shows "inner \<in> set (subtree n) \<Longrightarrow> snd (find_and_process_nested_calls e c n) = None \<Longrightarrow>
     edge \<in> set (fst (find_and_process_nested_calls e c n))"
proof (induction n)
  case (Node f t x cs)
  let ?n = "Node f t x cs"
  let ?own = "if ntype ?n = ''call''
        then then_do (process_nested_calls_in_node e c ?n) (resolve_and_emit e c ?n)
        else ([], None)"
  have unfold: "find_and_process_nested_calls e c ?n
      = then_do ?own (find_and_process_children e c cs)"
    by (simp del: process_nested_calls_in_node.simps)
  from Node.prems(2) have ok: "snd ?own = None" "snd (find_and_process_children e c cs) = None"
    unfolding unfold by (simp_all only: snd_then_do)
  have split: "fst (find_and_process_nested_calls e c ?n)
      = fst ?own @ fst (find_and_process_children e c cs)"
    unfolding unfold using ok(1) by (rule fst_then_do)
  from Node.prems(1) have "inner = ?n \<or> (\<exists>child\<in>set cs. inner \<in> set (subtree child))"
    by (subst (asm) subtree_unfold) auto
  then show ?case
  proof
    assume inner: "inner = ?n"
    then have call: "ntype ?n = ''call''" using assms(1) by simp
    have own: "?own = then_do (process_nested_calls_in_node e c ?n) ([edge], None)"
      using call assms(2) inner by (simp del: process_nested_calls_in_node.simps)
    from ok(1) have "snd (process_nested_calls_in_node e c ?n) = None"
      unfolding own by (simp only: snd_then_do)
    then have "fst ?own = fst (process_nested_calls_in_node e c ?n) @ [edge]"
      unfolding own by (simp add: fst_then_do del: process_nested_calls_in_node.simps)
    then show ?thesis unfolding split by simp
  next
    assume "\<exists>child\<in>set cs. inner \<in> set (subtree child)"
    then obtain child where child: "child \<in> set cs" "inner \<in> set (subtree child)" by auto
    have "edge \<in> set (fst (find_and_process_children e c cs))"
      using Node.IH child ok(2)
      by (intro find_and_process_children_emits [where ns = cs and child = child]) auto
    then show ?thesis unfolding split by simp
  qed
qed

lemma ingest_call_nodes_concat:
  "snd (ingest_call_nodes e c ns) = None \<Longrightarrow>
   fst (ingest_call_nodes e c ns) = concat (map (\<lambda>n. fst (ingest_call_node e c n)) ns)
   \<and> (\<forall>n\<in>set ns. snd (ingest_call_node e c n) = None)"
  by (induction ns) (auto simp: snd_then_do fst_then_do)

lemma count_list_concat_map:
  "count_list (concat (map g ns)) x = sum_list (map (\<lambda>n. count_list (g n) x) ns)"
  by (induction ns) auto

lemma sum_list_two_members:
  fixes h :: "'a \<Rightarrow> nat"
  shows "a \<in> set ns \<Longrightarrow> b \<in> set ns \<Longrightarrow> a \<noteq> b \<Longrightarrow> h a + h b \<le> sum_list (map h ns)"
proof (induction ns)
  case Nil
  then show ?case by simp
next
  case (Cons n ns)
  have member: "\<And>y. y \<in> set ns \<Longrightarrow> h y \<le> sum_list (map h ns)"
    by (simp add: member_le_sum_list)
  show ?case
  proof (cases "a = n")
    case True
    then have "b \<in> set ns" using Cons.prems by auto
    then show ?thesis using True member [of b] by simp
  next
    case False
    then have a: "a \<in> set ns" using Cons.prems by auto
    show ?thesis
    proof (cases "b = n")
      case True
      then show ?thesis using a member [of a] by simp
    next
      case False
      then have "b \<in> set ns" using Cons.prems by auto
      then show ?thesis using Cons.IH a Cons.prems(3) by simp
    qed
  qed
qed

lemma count_list_pos: "x \<in> set xs \<Longrightarrow> 1 \<le> count_list xs x"
  by (induction xs) auto

text \<open>
  C10: let an outer call captured in a caller have an attribute as callee, and let a
  call node inside that callee have a name that resolves. When the processing of the
  caller ends without an exception (and the calls query captures nodes of type
  \<^verbatim>\<open>call\<close>), the edge to the inner call's target is emitted at least twice: by the
  nested-call descent of the outer call, and when the inner call is processed as a
  capture of its own.
\<close>

theorem nested_call_emitted_twice:
  assumes query: "calls_query queries = Some calls" "''call'' \<in> set calls"
    and outer: "outer \<in> set (captures calls caller_node)"
    and callee: "child_by_field_name outer ''function'' = Some callee"
      "ntype callee = ''attribute''"
    and inner: "inner \<in> set (subtree callee)" "ntype inner = ''call''"
    and name: "get_call_target_name inner = Some call_name" "call_name \<noteq> []"
    and resolved: "resolve_function_call e call_name module_qn
        (Some (build_local_variable_type_map e caller_node module_qn)) class_context
        = Inr (Some callee_info)"
    and no_exception: "snd (ingest_function_calls e queries caller_node caller_qn caller_type
        module_qn class_context) = None"
  shows "2 \<le> count_list
      (fst (ingest_function_calls e queries caller_node caller_qn caller_type module_qn
              class_context))
      ((caller_type, ''qualified_name'', caller_qn), ''CALLS'',
       (fst callee_info, ''qualified_name'', snd callee_info))"
proof -
  let ?c = "\<lparr> cr_qn = caller_qn, cr_type = caller_type, cr_module_qn = module_qn,
              cr_var_types = Some (build_local_variable_type_map e caller_node module_qn),
              cr_class_context = class_context \<rparr>"
  let ?edge = "((caller_type, ''qualified_name'', caller_qn), ''CALLS'',
       (fst callee_info, ''qualified_name'', snd callee_info))"
  let ?ns = "captures calls caller_node"
  have run: "ingest_function_calls e queries caller_node caller_qn caller_type module_qn
        class_context = ingest_call_nodes e ?c ?ns"
    using query(1) by (simp add: ingest_function_calls_def)
  have emit: "resolve_and_emit e ?c inner = ([?edge], None)"
    using name resolved by (simp add: resolve_and_emit_def calls_edge_def)
  have ok: "snd (ingest_call_nodes e ?c ?ns) = None"
    using no_exception unfolding run .
  then have edges: "fst (ingest_call_nodes e ?c ?ns)
      = concat (map (\<lambda>n. fst (ingest_call_node e ?c n)) ?ns)"
    and each: "\<And>n. n \<in> set ?ns \<Longrightarrow> snd (ingest_call_node e ?c n) = None"
    using ingest_call_nodes_concat [of e ?c ?ns] by auto
  have outer_tree: "outer \<in> set (subtree caller_node)"
    using outer by (simp add: captures_def)
  have callee_child: "callee \<in> set (nchildren outer)"
    using callee(1) by (rule child_by_field_name_child)
  have inner_outer: "inner \<in> set (subtree outer)"
    using callee_child inner(1) by (rule subtree_child)
  then have "inner \<in> set (subtree caller_node)"
    using outer_tree subtree_trans by blast
  then have inner_captured: "inner \<in> set ?ns"
    using inner(2) query(2) by (simp add: captures_def)
  have "size inner \<le> size callee" using inner(1) by (rule subtree_size)
  moreover have "size callee < size outer" using callee(1) by (rule child_by_field_name_size)
  ultimately have distinct: "outer \<noteq> inner" by auto
  have descent: "process_nested_calls_in_node e ?c outer
      = find_and_process_nested_calls e ?c callee"
    using callee by (simp del: find_and_process_nested_calls.simps)
  have outer_ok: "snd (ingest_call_node e ?c outer) = None"
    using each outer by blast
  then have descent_ok: "snd (find_and_process_nested_calls e ?c callee) = None"
    unfolding ingest_call_node_def descent by (simp only: snd_then_do)
  have "?edge \<in> set (fst (find_and_process_nested_calls e ?c callee))"
    using inner(2) emit inner(1) descent_ok by (rule find_and_process_emits)
  then have "?edge \<in> set (fst (ingest_call_node e ?c outer))"
    unfolding ingest_call_node_def descent using descent_ok by (simp only: fst_then_do set_append UnI1)
  then have by_descent: "1 \<le> count_list (fst (ingest_call_node e ?c outer)) ?edge"
    by (rule count_list_pos)
  have "snd (process_nested_calls_in_node e ?c inner) = None"
    using each [OF inner_captured] unfolding ingest_call_node_def by (simp only: snd_then_do)
  then have "fst (ingest_call_node e ?c inner)
      = fst (process_nested_calls_in_node e ?c inner) @ [?edge]"
    unfolding ingest_call_node_def emit by (simp only: fst_then_do fst_conv)
  then have "?edge \<in> set (fst (ingest_call_node e ?c inner))" by simp
  then have by_capture: "1 \<le> count_list (fst (ingest_call_node e ?c inner)) ?edge"
    by (rule count_list_pos)
  have "count_list (fst (ingest_call_node e ?c outer)) ?edge
        + count_list (fst (ingest_call_node e ?c inner)) ?edge
      \<le> sum_list (map (\<lambda>n. count_list (fst (ingest_call_node e ?c n)) ?edge) ?ns)"
    using outer inner_captured distinct by (rule sum_list_two_members)
  then have "2 \<le> count_list (concat (map (\<lambda>n. fst (ingest_call_node e ?c n)) ?ns)) ?edge"
    using by_descent by_capture unfolding count_list_concat_map by linarith
  then show ?thesis unfolding run edges .
qed

lemma resolve_and_emit_f:
  "cr_module_qn c = ''M'' \<Longrightarrow> cr_class_context c = None \<Longrightarrow>
   resolve_and_emit env_nested c (call_to field ''f'')
     = ([calls_edge c (''Function'', ''M.f'')], None)"
  by (simp add: resolve_and_emit_def get_call_target_name_call_to resolve_f_nested)

lemma ingest_call_node_f:
  "cr_module_qn c = ''M'' \<Longrightarrow> cr_class_context c = None \<Longrightarrow>
   ingest_call_node env_nested c (call_to field ''f'')
     = ([calls_edge c (''Function'', ''M.f'')], None)"
  by (simp add: ingest_call_node_def process_nested_call_to resolve_and_emit_f
      del: process_nested_calls_in_node.simps)

lemma resolve_chain_nested:
  "resolve_function_call env_nested ''f().h'' ''M'' lvt None = Inr None"
  by (simp add: resolve_function_call_def is_method_chain_def has_dot_def has_parens_def
      resolve_chained_call_def final_method_match_def env_nested_def)

lemma captures_def_g:
  "captures [''call''] def_g = [call_chain, call_to (Some ''object'') ''f'']"
  by (simp add: captures_def subtree_def def_g_def call_chain_def callee_chain_def
      call_to_def ident_node_def)

lemma find_and_process_callee_chain:
  assumes "cr_module_qn c = ''M''" "cr_class_context c = None"
  shows "find_and_process_nested_calls env_nested c callee_chain
     = ([calls_edge c (''Function'', ''M.f'')], None)"
proof -
  have inner: "find_and_process_nested_calls env_nested c (call_to (Some ''object'') ''f'')
      = ([calls_edge c (''Function'', ''M.f'')], None)"
    using resolve_and_emit_f [OF assms, of "Some ''object''"]
      process_nested_call_to [of env_nested c "Some ''object''" "''f''"]
    by (subst find_and_process_nested_calls.simps)
      (simp add: call_to_def ident_node_def del: process_nested_calls_in_node.simps)
  show ?thesis
    using inner
    by (subst find_and_process_nested_calls.simps)
      (simp add: callee_chain_def ident_node_def
        del: find_and_process_nested_calls.simps process_nested_calls_in_node.simps
        add: find_and_process_nested_calls.simps [of _ _ "Node (Some ''attribute'') ''identifier'' (Some ''h'') []"])
qed

lemma ingest_call_node_chain:
  assumes "cr_module_qn c = ''M''" "cr_class_context c = None"
  shows "ingest_call_node env_nested c call_chain
     = ([calls_edge c (''Function'', ''M.f'')], None)"
proof -
  have callee: "child_by_field_name call_chain ''function'' = Some callee_chain"
    by (simp add: child_by_field_name_def call_chain_def callee_chain_def)
  have descent: "process_nested_calls_in_node env_nested c call_chain
      = ([calls_edge c (''Function'', ''M.f'')], None)"
    using callee find_and_process_callee_chain [OF assms]
    by (simp add: callee_chain_def del: find_and_process_nested_calls.simps)
  have name: "get_call_target_name call_chain = Some ''f().h''"
    by (simp add: get_call_target_name_def callee callee_chain_def)
  have own: "resolve_and_emit env_nested c call_chain = ([], None)"
    using assms by (simp add: resolve_and_emit_def name resolve_chain_nested)
  show ?thesis
    by (simp add: ingest_call_node_def descent own del: process_nested_calls_in_node.simps)
qed

theorem nested_call_emitted_twice_witness:
  "fst (ingest_function_calls env_nested python_queries def_g ''M.g'' ''Function'' ''M'' None)
     = [((''Function'', ''qualified_name'', ''M.g''), ''CALLS'',
         (''Function'', ''qualified_name'', ''M.f'')),
        ((''Function'', ''qualified_name'', ''M.g''), ''CALLS'',
         (''Function'', ''qualified_name'', ''M.f''))]
   \<and> 2 \<le> count_list
        (fst (ingest_function_calls env_nested python_queries def_g ''M.g'' ''Function'' ''M'' None))
        ((''Function'', ''qualified_name'', ''M.g''), ''CALLS'',
         (''Function'', ''qualified_name'', ''M.f''))"
proof -
  have run: "ingest_function_calls env_nested python_queries def_g ''M.g'' ''Function'' ''M'' None
     = ([((''Function'', ''qualified_name'', ''M.g''), ''CALLS'',
         (''Function'', ''qualified_name'', ''M.f'')),
        ((''Function'', ''qualified_name'', ''M.g''), ''CALLS'',
         (''Function'', ''qualified_name'', ''M.f''))], None)"
    by (simp add: ingest_function_calls_def python_queries_def captures_def_g
        ingest_call_node_chain ingest_call_node_f calls_edge_def then_do_def)
  have "2 \<le> count_list
        (fst (ingest_function_calls env_nested python_queries def_g ''M.g'' ''Function'' ''M'' None))
        ((''Function'', ''qualified_name'', ''M.g''), ''CALLS'',
         (fst (''Function'', ''M.f''), ''qualified_name'', snd (''Function'', ''M.f'')))"
  proof (rule nested_call_emitted_twice [where calls = "[''call'']" and outer = call_chain
        and callee = callee_chain and inner = "call_to (Some ''object'') ''f''"
        and call_name = "''f''"])
    show "calls_query python_queries = Some [''call'']" by (simp add: python_queries_def)
    show "''call'' \<in> set [''call'']" by simp
    show "call_chain \<in> set (captures [''call''] def_g)"
      by (simp add: captures_def_g)
    show "child_by_field_name call_chain ''function'' = Some callee_chain"
      by (simp add: child_by_field_name_def call_chain_def callee_chain_def)
    show "ntype callee_chain = ''attribute''" by (simp add: callee_chain_def)
    show "call_to (Some ''object'') ''f'' \<in> set (subtree callee_chain)"
      by (simp add: subtree_def callee_chain_def call_to_def ident_node_def)
    show "ntype (call_to (Some ''object'') ''f'') = ''call''" by (simp add: call_to_def)
    show "get_call_target_name (call_to (Some ''object'') ''f'') = Some ''f''"
      by (rule get_call_target_name_call_to)
    show "''f'' \<noteq> []" by simp
    show "resolve_function_call env_nested ''f'' ''M''
        (Some (build_local_variable_type_map env_nested def_g ''M'')) None
        = Inr (Some (''Function'', ''M.f''))"
      by (rule resolve_f_nested)
    show "snd (ingest_function_calls env_nested python_queries def_g ''M.g'' ''Function'' ''M''
        None) = None"
      unfolding run by simp
  qed
  then show ?thesis unfolding run by simp
qed

section \<open>What the resolver returns is registered\<close>

lemma first_registered_registered:
  "first_registered reg qs = Some (kind, qn) \<Longrightarrow> reg qn = Some kind"
  by (induction qs) (auto split: option.splits)

lemma resolve_inherited_method_registered:
  "resolve_inherited_method e class_qn method_name = Some (kind, qn) \<Longrightarrow>
   function_registry e qn = Some kind"
  unfolding resolve_inherited_method_levels by (rule first_registered_registered)

lemma resolve_super_call_registered:
  "resolve_super_call e call_name module_qn class_context = Some (kind, qn) \<Longrightarrow>
   function_registry e qn = Some kind"
  by (auto simp: resolve_super_call_def Let_def split: if_splits option.splits
      dest: resolve_inherited_method_registered)

lemma resolve_chained_call_registered:
  "resolve_chained_call e call_name module_qn local_var_types = Some (kind, qn) \<Longrightarrow>
   function_registry e qn = Some kind"
  by (auto simp: resolve_chained_call_def Let_def split: if_splits option.splits prod.splits
      dest: resolve_inherited_method_registered)

lemma resolve_on_type_registered:
  "resolve_on_type e import_map module_qn var_type method_name = Some (kind, qn) \<Longrightarrow>
   function_registry e qn = Some kind"
  by (auto simp: resolve_on_type_def Let_def split: if_splits option.splits
      dest: resolve_inherited_method_registered)

lemma resolve_direct_import_registered:
  "resolve_direct_import e import_map call_name = Some (kind, qn) \<Longrightarrow>
   function_registry e qn = Some kind"
  by (auto simp: resolve_direct_import_def split: option.splits)

lemma resolve_qualified_registered:
  "resolve_qualified e import_map call_name module_qn local_var_types = Some (kind, qn) \<Longrightarrow>
   function_registry e qn = Some kind"
  by (auto simp: resolve_qualified_def Let_def split: if_splits option.splits
      dest: resolve_on_type_registered)

lemma resolve_wildcard_registered:
  "resolve_wildcard reg items call_name = Some (kind, qn) \<Longrightarrow> reg qn = Some kind"
proof (induction items)
  case Nil
  then show ?case by simp
next
  case (Cons item items)
  obtain local_name imported_qn where item: "item = (local_name, imported_qn)"
    by (cases item)
  from Cons show ?case
    unfolding item
    by (auto split: if_splits option.splits dest: first_registered_registered)
qed

lemma resolve_import_phase_registered:
  "resolve_import_phase e call_name module_qn local_var_types = Some (kind, qn) \<Longrightarrow>
   function_registry e qn = Some kind"
  by (auto simp: resolve_import_phase_def split: option.splits
      dest: resolve_direct_import_registered resolve_qualified_registered
        resolve_wildcard_registered)

lemma resolve_heuristic_registered:
  "resolve_heuristic e call_name module_qn = Inr (Some (kind, qn)) \<Longrightarrow>
   function_registry e qn = Some kind"
  by (auto simp: resolve_heuristic_def Let_def split: option.splits list.splits)

lemma resolve_function_call_registered:
  "resolve_function_call e call_name module_qn local_var_types class_context
     = Inr (Some (kind, qn)) \<Longrightarrow>
   function_registry e qn = Some kind"
  by (auto simp: resolve_function_call_def split: if_splits option.splits
      dest: resolve_super_call_registered resolve_chained_call_registered
        resolve_import_phase_registered resolve_heuristic_registered)

section \<open>Emitted edges\<close>

lemma then_do_all:
  "list_all P (fst a) \<Longrightarrow> list_all P (fst b) \<Longrightarrow> list_all P (fst (then_do a b))"
  by (auto simp: then_do_def split: option.splits)

lemma resolve_and_emit_registered:
  "list_all (callee_registered e) (fst (resolve_and_emit e c n))"
  by (auto simp: resolve_and_emit_def calls_edge_def callee_registered_def
      split: option.splits sum.splits dest: resolve_function_call_registered)

lemma nested_calls_registered:
  "list_all (callee_registered e) (fst (process_nested_calls_in_node e c call_node))"
  "list_all (callee_registered e) (fst (find_and_process_nested_calls e c n))"
  "list_all (callee_registered e) (fst (find_and_process_children e c ns))"
proof (induction e c call_node and e c n and e c ns
    rule: process_nested_calls_in_node_find_and_process_nested_calls_find_and_process_children.induct)
  case (1 e c call_node)
  then show ?case
    by (auto split: option.splits simp del: find_and_process_nested_calls.simps)
next
  case (2 e c n)
  show ?case
    apply (subst find_and_process_nested_calls.simps)
    apply (intro then_do_all)
    using 2 resolve_and_emit_registered [of e c n]
    by (auto intro: then_do_all simp del: process_nested_calls_in_node.simps
        find_and_process_nested_calls.simps)
next
  case (3 e c)
  show ?case by simp
next
  case (4 e c child rest)
  then show ?case
    by (simp add: then_do_all del: find_and_process_nested_calls.simps)
qed

lemma ingest_call_nodes_registered:
  "list_all (callee_registered e) (fst (ingest_call_nodes e c ns))"
  by (induction ns)
    (simp_all add: ingest_call_node_def then_do_all nested_calls_registered
      resolve_and_emit_registered del: process_nested_calls_in_node.simps)

lemma ingest_function_calls_registered:
  "list_all (callee_registered e)
     (fst (ingest_function_calls e queries caller_node qn kind module_qn class_context))"
  by (simp add: ingest_function_calls_def ingest_call_nodes_registered split: option.splits)

lemma ingest_functions_registered:
  "list_all (callee_registered e) (fst (ingest_functions e queries module_qn captured))"
  by (induction captured)
    (auto intro!: then_do_all simp: ingest_function_calls_registered split: option.splits)

lemma ingest_methods_registered:
  "list_all (callee_registered e) (fst (ingest_methods e queries module_qn class_qn methods))"
  by (induction methods)
    (auto intro!: then_do_all simp: ingest_function_calls_registered split: option.splits)

lemma ingest_classes_registered:
  "list_all (callee_registered e) (fst (ingest_classes e queries module_qn classes))"
  by (induction classes)
    (auto intro!: then_do_all simp: ingest_methods_registered split: option.splits)

text \<open>
  The destination half of the edge invariant holds for every file: every edge that the
  processing of a file emits is a \<^verbatim>\<open>CALLS\<close> edge whose destination is a key of the
  Function Registry, labelled with the kind registered for it.
\<close>

theorem emitted_callee_registered:
  "\<forall>edge \<in> set (process_calls_in_file e queries root_node module_qn).
     \<exists>caller_type caller_qn kind callee_qn.
        edge = ((caller_type, ''qualified_name'', caller_qn), ''CALLS'',
                (kind, ''qualified_name'', callee_qn))
        \<and> function_registry e callee_qn = Some kind"
proof -
  have "list_all (callee_registered e) (process_calls_in_file e queries root_node module_qn)"
    unfolding process_calls_in_file_def process_calls_in_functions_def
      process_calls_in_classes_def
    by (intro then_do_all ingest_functions_registered ingest_classes_registered)
  then show ?thesis
    by (simp add: list_all_iff callee_registered_def)
qed

section \<open>The nested-function scenario\<close>

lemma captures_unfold:
  "captures query n =
     (if ntype n \<in> set query then [n] else []) @ concat (map (captures query) (nchildren n))"
proof -
  have "captures query n = filter (\<lambda>m. ntype m \<in> set query) (n # concat (map subtree (nchildren n)))"
    unfolding captures_def by (subst subtree_unfold) simp
  then show ?thesis
    by (simp add: filter_concat comp_def captures_def [abs_def])
qed

lemma captures_with_ancestors_unfold:
  "captures_with_ancestors query up n =
     (if ntype n \<in> set query then [(n, up)] else [])
     @ concat (map (captures_with_ancestors query (n # up)) (nchildren n))"
  by (cases n) (simp add: captures_with_ancestors_def [abs_def] filter_concat comp_def)

lemma ident_node_simps:
  "nchildren (ident_node field text) = []" "ntype (ident_node field text) = ''identifier''"
  "nfield (ident_node field text) = Some field" "ntext (ident_node field text) = Some text"
  by (simp_all add: ident_node_def)

lemma call_f_simps:
  "ntype call_f = ''call''"
  "nchildren call_f
     = [ident_node ''function'' ''f'', Node (Some ''arguments'') ''argument_list'' (Some ''()'') []]"
  by (simp_all add: call_f_def call_to_def)

lemma nested_nodes:
  "ntype stmt_f = ''expression_statement''" "nchildren stmt_f = [call_f]"
  "ntype body_inner = ''block''" "nchildren body_inner = [stmt_f]"
  "ntype def_inner = ''function_definition''"
  "nchildren def_inner = [ident_node ''name'' ''inner'', body_inner]"
  "ntype body_m = ''block''" "nchildren body_m = [def_inner]"
  "ntype def_m = ''function_definition''" "nchildren def_m = [ident_node ''name'' ''m'', body_m]"
  "ntype body_C = ''block''" "nchildren body_C = [def_m]" "nfield body_C = Some ''body''"
  "ntype class_C = ''class_definition''" "nchildren class_C = [ident_node ''name'' ''C'', body_C]"
  "ntype module_nested = ''module''" "nchildren module_nested = [class_C]"
  by (simp_all add: stmt_f_def body_inner_def def_inner_def body_m_def def_m_def body_C_def
      class_C_def module_nested_def)

lemma name_of_nested:
  "name_of def_inner = Some ''inner''" "name_of def_m = Some ''m''" "name_of class_C = Some ''C''"
  by (simp_all add: name_of_def child_by_field_name_def nested_nodes ident_node_simps)

lemma calls_below_inner:
  "captures [''call''] call_f = [call_f]"
  "captures [''call''] stmt_f = [call_f]"
  "captures [''call''] body_inner = [call_f]"
  "captures [''call''] def_inner = [call_f]"
  "captures [''call''] body_m = [call_f]"
  "captures [''call''] def_m = [call_f]"
proof -
  show 1: "captures [''call''] call_f = [call_f]"
    by (subst captures_unfold)
      (simp add: call_f_simps captures_unfold [of _ "ident_node _ _"] ident_node_simps
        captures_unfold [of _ "Node _ _ _ []"])
  show 2: "captures [''call''] stmt_f = [call_f]"
    by (subst captures_unfold) (simp add: nested_nodes 1)
  show 3: "captures [''call''] body_inner = [call_f]"
    by (subst captures_unfold) (simp add: nested_nodes 2)
  show 4: "captures [''call''] def_inner = [call_f]"
    by (subst captures_unfold)
      (simp add: nested_nodes 3 captures_unfold [of _ "ident_node _ _"] ident_node_simps)
  show 5: "captures [''call''] body_m = [call_f]"
    by (subst captures_unfold) (simp add: nested_nodes 4)
  show "captures [''call''] def_m = [call_f]"
    by (subst captures_unfold)
      (simp add: nested_nodes 5 captures_unfold [of _ "ident_node _ _"] ident_node_simps)
qed

lemma functions_below_class:
  "captures [''function_definition''] body_C = [def_m, def_inner]"
proof -
  let ?q = "[''function_definition'']"
  have leaf: "captures ?q (ident_node f t) = []" for f t
    by (subst captures_unfold) (simp add: ident_node_simps)
  have 1: "captures ?q call_f = []"
    by (subst captures_unfold)
      (simp add: call_f_simps leaf captures_unfold [of _ "Node _ _ _ []"])
  have 2: "captures ?q stmt_f = []"
    by (subst captures_unfold) (simp add: nested_nodes 1)
  have 3: "captures ?q body_inner = []"
    by (subst captures_unfold) (simp add: nested_nodes 2)
  have 4: "captures ?q def_inner = [def_inner]"
    by (subst captures_unfold) (simp add: nested_nodes 3 leaf)
  have 5: "captures ?q body_m = [def_inner]"
    by (subst captures_unfold) (simp add: nested_nodes 4)
  have 6: "captures ?q def_m = [def_m, def_inner]"
    by (subst captures_unfold) (simp add: nested_nodes 5 leaf)
  show ?thesis
    by (subst captures_unfold) (simp add: nested_nodes 6)
qed

lemma classes_of_module:
  "captures [''class_definition''] module_nested = [class_C]"
proof -
  let ?q = "[''class_definition'']"
  have leaf: "captures ?q (ident_node f t) = []" for f t
    by (subst captures_unfold) (simp add: ident_node_simps)
  have 1: "captures ?q call_f = []"
    by (subst captures_unfold)
      (simp add: call_f_simps leaf captures_unfold [of _ "Node _ _ _ []"])
  have 2: "captures ?q stmt_f = []"
    by (subst captures_unfold) (simp add: nested_nodes 1)
  have 3: "captures ?q body_inner = []"
    by (subst captures_unfold) (simp add: nested_nodes 2)
  have 4: "captures ?q def_inner = []"
    by (subst captures_unfold) (simp add: nested_nodes 3 leaf)
  have 5: "captures ?q body_m = []"
    by (subst captures_unfold) (simp add: nested_nodes 4)
  have 6: "captures ?q def_m = []"
    by (subst captures_unfold) (simp add: nested_nodes 5 leaf)
  have 7: "captures ?q body_C = []"
    by (subst captures_unfold) (simp add: nested_nodes 6)
  have 8: "captures ?q class_C = [class_C]"
    by (subst captures_unfold) (simp add: nested_nodes 7 leaf)
  show ?thesis
    by (subst captures_unfold) (simp add: nested_nodes 8)
qed

lemma functions_of_module:
  "captures_with_ancestors [''function_definition''] [] module_nested
     = [(def_m, [body_C, class_C, module_nested]),
        (def_inner, [body_m, def_m, body_C, class_C, module_nested])]"
proof -
  let ?q = "[''function_definition'']"
  have leaf: "captures_with_ancestors ?q up (ident_node f t) = []" for f t up
    by (subst captures_with_ancestors_unfold) (simp add: ident_node_simps)
  have 1: "captures_with_ancestors ?q up call_f = []" for up
    by (subst captures_with_ancestors_unfold)
      (simp add: call_f_simps leaf captures_with_ancestors_unfold [of _ _ "Node _ _ _ []"])
  have 2: "captures_with_ancestors ?q up stmt_f = []" for up
    by (subst captures_with_ancestors_unfold) (simp add: nested_nodes 1)
  have 3: "captures_with_ancestors ?q up body_inner = []" for up
    by (subst captures_with_ancestors_unfold) (simp add: nested_nodes 2)
  have 4: "captures_with_ancestors ?q up def_inner = [(def_inner, up)]" for up
    by (subst captures_with_ancestors_unfold) (simp add: nested_nodes 3 leaf)
  have 5: "captures_with_ancestors ?q up body_m = [(def_inner, body_m # up)]" for up
    by (subst captures_with_ancestors_unfold) (simp add: nested_nodes 4)
  have 6: "captures_with_ancestors ?q up def_m
      = [(def_m, up), (def_inner, body_m # def_m # up)]" for up
    by (subst captures_with_ancestors_unfold) (simp add: nested_nodes 5 leaf)
  have 7: "captures_with_ancestors ?q up body_C
      = [(def_m, body_C # up), (def_inner, body_m # def_m # body_C # up)]" for up
    by (subst captures_with_ancestors_unfold) (simp add: nested_nodes 6)
  have 8: "captures_with_ancestors ?q up class_C
      = [(def_m, body_C # class_C # up), (def_inner, body_m # def_m # body_C # class_C # up)]"
    for up
    by (subst captures_with_ancestors_unfold) (simp add: nested_nodes 7 leaf)
  show ?thesis
    by (subst captures_with_ancestors_unfold) (simp add: nested_nodes 8)
qed

lemma resolve_f_nested_ctx:
  "resolve_function_call env_nested ''f'' ''M'' lvt ctx = Inr (Some (''Function'', ''M.f''))"
  by (simp add: resolve_function_call_def has_dot_def resolve_import_phase_def
      resolve_direct_import_def resolve_qualified_def resolve_heuristic_def
      env_nested_def registry_nested_def)

lemma ingest_call_f_nested:
  "ingest_function_calls env_nested python_queries caller_node qn kind ''M'' ctx
     = ingest_call_nodes env_nested
         \<lparr> cr_qn = qn, cr_type = kind, cr_module_qn = ''M'',
           cr_var_types = Some [], cr_class_context = ctx \<rparr>
         (captures [''call''] caller_node)"
  by (simp add: ingest_function_calls_def python_queries_def env_nested_def)

lemma ingest_call_nodes_f:
  "ingest_call_nodes env_nested
         \<lparr> cr_qn = qn, cr_type = kind, cr_module_qn = ''M'',
           cr_var_types = Some [], cr_class_context = ctx \<rparr> [call_f]
     = ([((kind, ''qualified_name'', qn), ''CALLS'',
          (''Function'', ''qualified_name'', ''M.f''))], None)"
  by (simp add: ingest_call_node_def call_f_def process_nested_call_to resolve_and_emit_def
      get_call_target_name_call_to resolve_f_nested_ctx calls_edge_def
      del: process_nested_calls_in_node.simps)

lemma ingest_nested_functions:
  "ingest_function_calls env_nested python_queries def_inner qn kind ''M'' ctx
     = ([((kind, ''qualified_name'', qn), ''CALLS'',
          (''Function'', ''qualified_name'', ''M.f''))], None)"
  "ingest_function_calls env_nested python_queries def_m qn kind ''M'' ctx
     = ([((kind, ''qualified_name'', qn), ''CALLS'',
          (''Function'', ''qualified_name'', ''M.f''))], None)"
  by (simp_all only: ingest_call_f_nested calls_below_inner ingest_call_nodes_f)

lemma process_calls_in_classes_nested:
  "process_calls_in_classes env_nested python_queries module_nested ''M''
     = ([((''Method'', ''qualified_name'', ''M.C.m''), ''CALLS'',
          (''Function'', ''qualified_name'', ''M.f'')),
         ((''Method'', ''qualified_name'', ''M.C.inner''), ''CALLS'',
          (''Function'', ''qualified_name'', ''M.f''))], None)"
proof -
  have queries: "classes_query python_queries = [''class_definition'']"
    "functions_query python_queries = [''function_definition'']"
    by (simp_all add: python_queries_def)
  have body: "child_by_field_name class_C ''body'' = Some body_C"
    by (simp add: child_by_field_name_def nested_nodes ident_node_simps)
  show ?thesis
    by (simp add: process_calls_in_classes_def queries classes_of_module name_of_nested body
        functions_below_class ingest_nested_functions then_do_def)
qed

lemma is_method_nested:
  "is_method (config python_queries) [body_C, class_C, module_nested]"
  "is_method (config python_queries) [body_m, def_m, body_C, class_C, module_nested]"
  by (simp_all add: python_queries_def nested_nodes)

lemma process_calls_in_functions_nested:
  "process_calls_in_functions env_nested python_queries module_nested ''M'' = ([], None)"
proof -
  have "functions_query python_queries = [''function_definition'']"
    by (simp add: python_queries_def)
  then show ?thesis
    by (simp add: process_calls_in_functions_def functions_of_module function_caller_qn_def
        is_method_nested del: is_method.simps)
qed

lemma process_calls_in_file_nested:
  "process_calls_in_file env_nested python_queries module_nested ''M''
     = [((''Method'', ''qualified_name'', ''M.C.m''), ''CALLS'',
          (''Function'', ''qualified_name'', ''M.f'')),
         ((''Method'', ''qualified_name'', ''M.C.inner''), ''CALLS'',
          (''Function'', ''qualified_name'', ''M.f''))]"
  by (simp add: process_calls_in_file_def process_calls_in_functions_nested
      process_calls_in_classes_nested)

theorem emitted_callee_registered_witness:
  "process_calls_in_file env_nested python_queries module_nested ''M''
     = [((''Method'', ''qualified_name'', ''M.C.m''), ''CALLS'',
          (''Function'', ''qualified_name'', ''M.f'')),
         ((''Method'', ''qualified_name'', ''M.C.inner''), ''CALLS'',
          (''Function'', ''qualified_name'', ''M.f''))]
   \<and> function_registry env_nested ''M.f'' = Some ''Function''"
  using emitted_callee_registered [of env_nested python_queries module_nested "''M''"]
  unfolding process_calls_in_file_nested
  by simp


section \<open>Caller names of nested functions\<close>

text \<open>
  For a function nested only in named functions, \<^verbatim>\<open>_build_nested_qualified_name\<close> joins
  the module name, the names of the enclosing functions from the outermost inwards, and
  the function's own name, so the name of a nested function is the name of the function
  around it, a dot, and its own name.
\<close>

lemma collect_path_parts_functions:
  assumes "list_all (\<lambda>f. ntype f \<in> set (function_node_types cfg)
               \<and> ntype f \<notin> set (module_node_types cfg)) fs"
    and "map name_of fs = map Some names"
    and "ntype m \<in> set (module_node_types cfg)"
  shows "collect_path_parts cfg (fs @ m # up) path_parts = Some (path_parts @ names)"
  using assms
proof (induction fs arbitrary: names path_parts)
  case Nil
  then show ?case by simp
next
  case (Cons f fs)
  from Cons.prems(2) obtain n ns where names: "names = n # ns" "name_of f = Some n"
    "map name_of fs = map Some ns"
    by (cases names) auto
  have "collect_path_parts cfg (fs @ m # up) (path_parts @ [n]) = Some ((path_parts @ [n]) @ ns)"
    using Cons.prems(1,3) names(3) by (intro Cons.IH) auto
  then show ?case
    using Cons.prems(1) names by simp
qed

lemma join_dot_Cons: "ys \<noteq> [] \<Longrightarrow> join_dot (x # ys) = x @ ''.'' @ join_dot ys"
  by (cases ys) auto

lemma join_dot_snoc: "ys \<noteq> [] \<Longrightarrow> join_dot (ys @ [z]) = join_dot ys @ ''.'' @ z"
  using join_dot_append [of ys "[z]"] by simp

lemma build_nested_qualified_name_functions:
  assumes "list_all (\<lambda>f. ntype f \<in> set (function_node_types cfg)
               \<and> ntype f \<notin> set (module_node_types cfg)) fs"
    and "map name_of fs = map Some names"
    and "ntype m \<in> set (module_node_types cfg)"
  shows "build_nested_qualified_name cfg (fs @ m # up) module_qn func_name
           = Some (join_dot (module_qn # rev names @ [func_name]))"
proof -
  have parts: "collect_path_parts cfg (fs @ m # up) [] = Some names"
    using collect_path_parts_functions [OF assms, of up "[]"] by simp
  show ?thesis
  proof (cases "names = []")
    case True
    then show ?thesis
      by (simp add: build_nested_qualified_name_def parts)
  next
    case False
    then have "join_dot (module_qn # rev names @ [func_name])
        = module_qn @ ''.'' @ join_dot (rev names) @ ''.'' @ func_name"
      by (simp add: join_dot_Cons join_dot_snoc)
    then show ?thesis
      using False by (simp add: build_nested_qualified_name_def parts)
  qed
qed

lemma nested_function_qn_extends_enclosing:
  assumes "list_all (\<lambda>f. ntype f \<in> set (function_node_types cfg)
               \<and> ntype f \<notin> set (module_node_types cfg)) (f # fs)"
    and "map name_of (f # fs) = map Some (n # names)"
    and "ntype m \<in> set (module_node_types cfg)"
  shows "\<exists>enclosing_qn.
           build_nested_qualified_name cfg (fs @ m # up) module_qn n = Some enclosing_qn
           \<and> build_nested_qualified_name cfg ((f # fs) @ m # up) module_qn func_name
               = Some (enclosing_qn @ ''.'' @ func_name)"
proof -
  have fs: "list_all (\<lambda>f. ntype f \<in> set (function_node_types cfg)
               \<and> ntype f \<notin> set (module_node_types cfg)) fs"
    "map name_of fs = map Some names"
    using assms(1,2) by auto
  have outer: "build_nested_qualified_name cfg (fs @ m # up) module_qn n
      = Some (join_dot (module_qn # rev names @ [n]))"
    using fs assms(3) by (rule build_nested_qualified_name_functions)
  have "build_nested_qualified_name cfg ((f # fs) @ m # up) module_qn func_name
      = Some (join_dot (module_qn # rev (n # names) @ [func_name]))"
    using assms by (rule build_nested_qualified_name_functions)
  moreover have "join_dot (module_qn # rev (n # names) @ [func_name])
      = join_dot (module_qn # rev names @ [n]) @ ''.'' @ func_name"
    using join_dot_snoc [of "module_qn # rev names @ [n]" func_name] by simp
  ultimately show ?thesis using outer by simp
qed

text \<open>
  C5 at the function \<^verbatim>\<open>inner\<close> nested in the method \<^verbatim>\<open>m\<close> of the class \<^verbatim>\<open>C\<close> of module \<^verbatim>\<open>M\<close>:
  the pass over functions skips it as a method (\<^verbatim>\<open>_build_nested_qualified_name\<close> gives it
  no name), and the pass over classes emits its call under the caller name \<^verbatim>\<open>M.C.inner\<close>,
  not \<^verbatim>\<open>M.C.m.inner\<close>.
\<close>

theorem nested_function_in_method_caller_qn:
  "process_calls_in_functions env_nested python_queries module_nested ''M'' = ([], None)
   \<and> build_nested_qualified_name (config python_queries)
        [body_m, def_m, body_C, class_C, module_nested] ''M'' ''inner'' = None
   \<and> process_calls_in_classes env_nested python_queries module_nested ''M''
     = ([((''Method'', ''qualified_name'', ''M.C.m''), ''CALLS'',
          (''Function'', ''qualified_name'', ''M.f'')),
         ((''Method'', ''qualified_name'', ''M.C.inner''), ''CALLS'',
          (''Function'', ''qualified_name'', ''M.f''))], None)"
proof -
  have "build_nested_qualified_name (config python_queries)
        [body_m, def_m, body_C, class_C, module_nested] ''M'' ''inner'' = None"
    by (simp add: build_nested_qualified_name_def python_queries_def nested_nodes
        name_of_nested)
  then show ?thesis
    by (simp only: process_calls_in_functions_nested process_calls_in_classes_nested simp_thms)
qed

end
